theory Spec2Isabelle
  imports Complex_Main
begin

section \<open>Human-Typer: the typing engine of \<^verbatim>\<open>human_typer.py\<close>\<close>

text \<open>
  The theory embeds class \<^verbatim>\<open>GlobalTypingSimulator\<close> and the button handler
  \<^verbatim>\<open>start_typing\<close> of \<^verbatim>\<open>src/human_typer.py\<close>.

  \<^item> Python floats are modelled as reals and Python ints as \<open>int\<close>.
  \<^item> Text is ASCII: on it \<^verbatim>\<open>str.isalpha\<close>, \<^verbatim>\<open>str.lower\<close>, \<^verbatim>\<open>str.swapcase\<close> and
    \<^verbatim>\<open>str.strip\<close> are the table look-ups below, and a one-character string is a \<open>char\<close>.
  \<^item> The run works on a state that holds what the run reads from outside and what it
    does: the draws of the \<^verbatim>\<open>random\<close> module still to come, the values that the coming
    calls of \<^verbatim>\<open>self._stop_event.is_set()\<close> will see, and the list of actions done so far.
  \<^item> The seven getters are closures over the sliders, which \<^verbatim>\<open>start_typing\<close> disables
    before it starts the run; each is a constant of the run.
\<close>

subsection \<open>Strings\<close>

definition ascii_lowercase :: string where
  "ascii_lowercase = ''abcdefghijklmnopqrstuvwxyz''"

definition ascii_uppercase :: string where
  "ascii_uppercase = ''ABCDEFGHIJKLMNOPQRSTUVWXYZ''"

definition ascii_letters :: string where
  "ascii_letters = ascii_lowercase @ ascii_uppercase"

definition vowels :: string where
  "vowels = ''aeiou''"

definition consonants :: string where
  "consonants = ''bcdfghjklmnpqrstvwxyz''"

definition whitespace :: string where
  "whitespace = [CHR 0x09, CHR 0x0A, CHR 0x0B, CHR 0x0C, CHR 0x0D,
                 CHR 0x1C, CHR 0x1D, CHR 0x1E, CHR 0x1F, CHR 0x20]"

definition isalpha :: "char \<Rightarrow> bool" where
  "isalpha c = (c \<in> set ascii_letters)"

definition isspace :: "char \<Rightarrow> bool" where
  "isspace c = (c \<in> set whitespace)"

definition lower :: "char \<Rightarrow> char" where
  "lower c = (case map_of (zip ascii_uppercase ascii_lowercase) c of
                Some l \<Rightarrow> l | None \<Rightarrow> c)"

definition swapcase :: "char \<Rightarrow> char" where
  "swapcase c = (case map_of (zip ascii_uppercase ascii_lowercase) c of
                   Some l \<Rightarrow> l
                 | None \<Rightarrow> (case map_of (zip ascii_lowercase ascii_uppercase) c of
                             Some u \<Rightarrow> u | None \<Rightarrow> c))"

text \<open>\<^verbatim>\<open>x in s\<close> for a string \<open>x\<close> of at most one character: the empty string is in
  every string.\<close>

definition str_in :: "string \<Rightarrow> string \<Rightarrow> bool" where
  "str_in x s = (case x of [] \<Rightarrow> True | c # _ \<Rightarrow> c \<in> set s)"

definition strip :: "string \<Rightarrow> string" where
  "strip s = rev (dropWhile isspace (rev (dropWhile isspace s)))"

text \<open>\<^verbatim>\<open>s.rstrip("\n")\<close>\<close>

definition rstrip_newline :: "string \<Rightarrow> string" where
  "rstrip_newline s = rev (dropWhile (\<lambda>c. c = CHR 0x0A) (rev s))"

text \<open>\<^verbatim>\<open>s.split(sep)\<close> for a one-character separator: every occurrence splits, so
  neighbouring separators give empty strings, and the result is never empty.\<close>

fun split :: "char \<Rightarrow> string \<Rightarrow> string list" where
  "split sep [] = [[]]"
| "split sep (c # cs) =
     (if c = sep then [] # split sep cs
      else (case split sep cs of
              w # ws \<Rightarrow> (c # w) # ws
            | [] \<Rightarrow> [[c]]))"

text \<open>The decimal digits of the countdown's \<^verbatim>\<open>f"...{i}s..."\<close>.\<close>

function str_of_nat :: "nat \<Rightarrow> string" where
  "str_of_nat n = (if n < 10 then [''0123456789'' ! n]
                   else str_of_nat (n div 10) @ [''0123456789'' ! (n mod 10)])"
  by pat_completeness auto
termination
  by (relation "measure id") auto

subsection \<open>Keys, actions, state\<close>

datatype key = KeyChar char | Key_space | Key_enter | Key_backspace

text \<open>The places of \<^verbatim>\<open>_run\<close> that call \<^verbatim>\<open>time.sleep\<close>, in source order.\<close>

datatype site =
    Countdown | Buffer | ParagraphPause
  | TypoDelay | CorrectionDelay | BackspaceDelay | CharDelay
  | SentencePause | ClausePause | ThoughtfulPause | WordGap
  | ParagraphBreakGap | LineGap

datatype action =
    Press key            \<comment> \<open>\<^verbatim>\<open>keyboard.press(k); keyboard.release(k)\<close>\<close>
  | Sleep site real      \<comment> \<open>\<^verbatim>\<open>time.sleep(t)\<close>\<close>
  | Status string        \<comment> \<open>\<^verbatim>\<open>_schedule_status(msg)\<close>\<close>
  | CallbackScheduled    \<comment> \<open>\<^verbatim>\<open>root.after(0, stop_callback)\<close>\<close>

record state =
  rnd :: "nat \<Rightarrow> real"          \<comment> \<open>the coming values of \<^verbatim>\<open>random.random()\<close>\<close>
  picks :: "nat \<Rightarrow> nat"         \<comment> \<open>the coming integer draws behind \<^verbatim>\<open>random.choice\<close>\<close>
  stop_event :: "nat \<Rightarrow> bool"   \<comment> \<open>what the coming \<^verbatim>\<open>is_set()\<close> calls return\<close>
  out :: "action list"          \<comment> \<open>the actions so far, oldest first\<close>

record config =
  get_wpm :: int
  get_typo_rate :: real
  get_pause_freq :: real
  get_sentence_pause :: real
  get_paragraph_pause :: real
  get_speed_variation :: real
  get_mistake_correction_delay :: real
  keyboard_raises :: "key \<Rightarrow> bool"  \<comment> \<open>the keys on which the pynput controller raises\<close>
  stop_callback :: bool              \<comment> \<open>whether a \<^verbatim>\<open>stop_callback\<close> was given\<close>

text \<open>How a piece of \<^verbatim>\<open>_run\<close> ends: it falls through to the next statement, it leaves
  \<^verbatim>\<open>_run\<close> by \<^verbatim>\<open>return\<close>, or an exception leaves \<^verbatim>\<open>_run\<close> and ends the thread.\<close>

datatype flow = Normal state | Returned state | Raised state

text \<open>The terminal state of a run.\<close>

datatype ending = Completed | Cancelled | Crashed

fun ending_of :: "flow \<Rightarrow> ending" where
  "ending_of (Normal s) = Completed"
| "ending_of (Returned s) = Cancelled"
| "ending_of (Raised s) = Crashed"

fun flow_state :: "flow \<Rightarrow> state" where
  "flow_state (Normal s) = s"
| "flow_state (Returned s) = s"
| "flow_state (Raised s) = s"

definition emit :: "action \<Rightarrow> state \<Rightarrow> state" where
  "emit a s = s\<lparr>out := out s @ [a]\<rparr>"

definition random_random :: "state \<Rightarrow> real \<times> state" where
  "random_random s = (rnd s 0, s\<lparr>rnd := \<lambda>n. rnd s (Suc n)\<rparr>)"

text \<open>\<^verbatim>\<open>random.uniform(a, b)\<close> is \<^verbatim>\<open>a + (b - a) * self.random()\<close>.\<close>

definition random_uniform :: "real \<Rightarrow> real \<Rightarrow> state \<Rightarrow> real \<times> state" where
  "random_uniform a b s = (let (u, s') = random_random s in (a + (b - a) * u, s'))"

text \<open>\<^verbatim>\<open>random.choice(seq)\<close> is \<^verbatim>\<open>seq[self._randbelow(len(seq))]\<close>; the index below
  \<open>length seq\<close> is the next integer draw reduced modulo the length.\<close>

definition random_choice :: "string \<Rightarrow> state \<Rightarrow> char \<times> state" where
  "random_choice seq s =
     (seq ! (picks s 0 mod length seq), s\<lparr>picks := \<lambda>n. picks s (Suc n)\<rparr>)"

definition is_set :: "state \<Rightarrow> bool \<times> state" where
  "is_set s = (stop_event s 0, s\<lparr>stop_event := \<lambda>n. stop_event s (Suc n)\<rparr>)"

text \<open>Running one piece of \<^verbatim>\<open>_run\<close> after another: the second runs only when the first
  fell through.\<close>

fun and_then :: "flow \<Rightarrow> (state \<Rightarrow> flow) \<Rightarrow> flow" where
  "and_then (Normal s) g = g s"
| "and_then (Returned s) g = Returned s"
| "and_then (Raised s) g = Raised s"

text \<open>\<^verbatim>\<open>time.sleep(t)\<close> raises \<^verbatim>\<open>ValueError\<close> when \<open>t\<close> is negative.\<close>

definition sleep :: "site \<Rightarrow> real \<Rightarrow> state \<Rightarrow> flow" where
  "sleep k t s = (if t < 0 then Raised s else Normal (emit (Sleep k t) s))"

definition schedule_status :: "string \<Rightarrow> state \<Rightarrow> state" where
  "schedule_status msg s = emit (Status msg) s"

definition on_finished :: "config \<Rightarrow> state \<Rightarrow> state" where
  "on_finished cfg s = (if stop_callback cfg then emit CallbackScheduled s else s)"

text \<open>A press and release of one key, as lines 140-141, 156-157 and 184-185 do it:
  nothing catches what the controller raises.\<close>

definition press_release :: "config \<Rightarrow> key \<Rightarrow> state \<Rightarrow> flow" where
  "press_release cfg k s =
     (if keyboard_raises cfg k then Raised (emit (Press k) s)
      else Normal (emit (Press k) s))"

text \<open>\<^verbatim>\<open>_type_char\<close>: the same inside \<^verbatim>\<open>try ... except Exception: pass\<close>.\<close>

definition type_char :: "config \<Rightarrow> char \<Rightarrow> state \<Rightarrow> state" where
  "type_char cfg ch s =
     (case press_release cfg (KeyChar ch) s of
        Normal s' \<Rightarrow> s'
      | Raised s' \<Rightarrow> s'
      | Returned s' \<Rightarrow> s')"

definition choose_typo_char :: "char \<Rightarrow> state \<Rightarrow> char \<times> state" where
  "choose_typo_char correct_char s =
     (let (u, s1) = random_random s in
      if u < 0.15 then (swapcase correct_char, s1)
      else if str_in [lower correct_char] vowels then random_choice vowels s1
      else if str_in [lower correct_char] consonants then random_choice consonants s1
      else random_choice ascii_letters s1)"

subsection \<open>The speed of a word (lines 112-117) and the sleep after a character (146-147)\<close>

definition base_cps :: "config \<Rightarrow> real" where
  "base_cps cfg = (real_of_int (max 1 (get_wpm cfg)) * 5) / 60"

definition effective_cps :: "config \<Rightarrow> real \<Rightarrow> real" where
  "effective_cps cfg word_speed_multiplier = base_cps cfg * word_speed_multiplier"

definition char_delay :: "config \<Rightarrow> real \<Rightarrow> real" where
  "char_delay cfg word_speed_multiplier =
     (if effective_cps cfg word_speed_multiplier > 0
      then 1 / effective_cps cfg word_speed_multiplier else 0.12)"

definition sleep_time :: "real \<Rightarrow> real \<Rightarrow> real" where
  "sleep_time cd u = (let jitter = u * cd in max 0.01 (cd + jitter))"

subsection \<open>The body of \<^verbatim>\<open>_run\<close>\<close>

text \<open>Lines 130-142: the wrong character, two sleeps, the backspace and its sleep.\<close>

definition typo_cycle :: "config \<Rightarrow> real \<Rightarrow> char \<Rightarrow> state \<Rightarrow> flow" where
  "typo_cycle cfg cd ch s =
     (let (wrong_char, s1) = choose_typo_char ch s;
          s2 = type_char cfg wrong_char s1;
          (a, s3) = random_uniform 0.8 1.6 s2
      in and_then (sleep TypoDelay (cd * a) s3) (\<lambda>s4.
           let correction_delay = get_mistake_correction_delay cfg;
               (b, s5) = random_uniform 0.8 1.2 s4
           in and_then (sleep CorrectionDelay (correction_delay * b) s5) (\<lambda>s6.
                and_then (press_release cfg Key_backspace s6) (\<lambda>s7.
                  let (c, s8) = random_random s7
                  in sleep BackspaceDelay (0.05 + c * 0.12) s8))))"

text \<open>Lines 121-148: one turn of the loop over the characters of a word.\<close>

definition char_step :: "config \<Rightarrow> real \<Rightarrow> char \<Rightarrow> state \<Rightarrow> flow" where
  "char_step cfg cd ch s =
     (let (stopped, s0) = is_set s in
      if stopped then Returned (on_finished cfg s0)
      else
        let typo_rate = get_typo_rate cfg;
            (u, s1) = random_random s0;
            make_typo = (u < typo_rate)
        in and_then (if make_typo \<and> isalpha ch then typo_cycle cfg cd ch s1 else Normal s1)
             (\<lambda>s2. let s3 = type_char cfg ch s2;
                       (j, s4) = random_uniform (- 0.4) 0.6 s3
                   in sleep CharDelay (sleep_time cd j) s4))"

fun type_chars :: "config \<Rightarrow> real \<Rightarrow> string \<Rightarrow> state \<Rightarrow> flow" where
  "type_chars cfg cd [] s = Normal s"
| "type_chars cfg cd (ch # rest) s =
     and_then (char_step cfg cd ch s) (\<lambda>s'. type_chars cfg cd rest s')"

text \<open>Lines 150-176: the space after a word that is not the last of \<open>words\<close>, and
  the pause after the space.\<close>

definition inter_word :: "config \<Rightarrow> string list \<Rightarrow> nat \<Rightarrow> string \<Rightarrow> state \<Rightarrow> flow" where
  "inter_word cfg words w_idx word s =
     (if int w_idx < int (length words) - 1 then
        (let (stopped, s0) = is_set s in
         if stopped then Returned (on_finished cfg s0)
         else and_then (press_release cfg Key_space s0) (\<lambda>s1.
           let last_char = (if word \<noteq> [] then [last word] else []);
               pause_prob = get_pause_freq cfg
           in if str_in last_char ''.!?'' then
                (let sentence_pause = get_sentence_pause cfg;
                     (pause_time, s2) =
                       random_uniform (sentence_pause * 0.7) (sentence_pause * 1.4) s1
                 in sleep SentencePause pause_time s2)
              else if str_in last_char '',;:'' then
                (let (t, s2) = random_uniform 0.15 0.45 s1
                 in sleep ClausePause t s2)
              else
                (let (u, s2) = random_random s1 in
                 if u < pause_prob then
                   (let (t, s3) = random_uniform 0.2 0.9 s2
                    in sleep ThoughtfulPause t s3)
                 else
                   (let (t, s3) = random_uniform 0.02 0.12 s2
                    in sleep WordGap t s3))))
      else Normal s)"

text \<open>Lines 103-176: one turn of the loop over the words of a line.\<close>

definition word_step :: "config \<Rightarrow> string list \<Rightarrow> nat \<Rightarrow> string \<Rightarrow> state \<Rightarrow> flow" where
  "word_step cfg words w_idx word s =
     (let (stopped, s0) = is_set s in
      if stopped then Returned (on_finished cfg s0)
      else if word = [] then Normal s0
      else
        let speed_variation = get_speed_variation cfg;
            (word_speed_multiplier, s1) =
              random_uniform (1.0 - speed_variation) (1.0 + speed_variation) s0;
            cd = char_delay cfg word_speed_multiplier
        in and_then (type_chars cfg cd word s1) (\<lambda>s2. inter_word cfg words w_idx word s2))"

fun type_words :: "config \<Rightarrow> string list \<Rightarrow> nat \<Rightarrow> string list \<Rightarrow> state \<Rightarrow> flow" where
  "type_words cfg words w_idx [] s = Normal s"
| "type_words cfg words w_idx (word # rest) s =
     and_then (word_step cfg words w_idx word s)
       (\<lambda>s'. type_words cfg words (Suc w_idx) rest s')"

text \<open>Line 100: the words of a line.\<close>

definition words_of :: "string \<Rightarrow> string list" where
  "words_of line = (if strip line \<noteq> [] then split (CHR '' '') line else [[]])"

text \<open>Lines 178-191: the enter after a line that is not the last, and its pause.\<close>

definition end_of_line :: "config \<Rightarrow> string list \<Rightarrow> nat \<Rightarrow> state \<Rightarrow> flow" where
  "end_of_line cfg lines line_idx s =
     (if int line_idx < int (length lines) - 1 then
        (let (stopped, s0) = is_set s in
         if stopped then Returned (on_finished cfg s0)
         else and_then (press_release cfg Key_enter s0) (\<lambda>s1.
           if line_idx + 1 < length lines \<and> strip (lines ! (line_idx + 1)) = [] then
             (let (t, s2) = random_uniform 0.1 0.25 s1
              in sleep ParagraphBreakGap t s2)
           else
             (let (t, s2) = random_uniform 0.05 0.15 s1
              in sleep LineGap t s2)))
      else Normal s)"

text \<open>Lines 87-191: one turn of the loop over the lines.\<close>

definition line_step :: "config \<Rightarrow> string list \<Rightarrow> nat \<Rightarrow> string \<Rightarrow> state \<Rightarrow> flow" where
  "line_step cfg lines line_idx line s =
     (let (stopped, s0) = is_set s in
      if stopped then Returned (on_finished cfg s0)
      else
        let is_paragraph_start =
              (line_idx > 0 \<and> strip (lines ! (line_idx - 1)) = [] \<and> strip line \<noteq> [])
        in and_then
             (if is_paragraph_start then
                (let paragraph_pause = get_paragraph_pause cfg;
                     (t, s') = random_uniform (paragraph_pause * 0.8)
                                 (paragraph_pause * 1.3) s0
                 in sleep ParagraphPause t s')
              else Normal s0)
             (\<lambda>s1. let words = words_of line
                   in and_then (type_words cfg words 0 words s1)
                        (\<lambda>s2. end_of_line cfg lines line_idx s2)))"

fun type_lines :: "config \<Rightarrow> string list \<Rightarrow> nat \<Rightarrow> string list \<Rightarrow> state \<Rightarrow> flow" where
  "type_lines cfg lines line_idx [] s = Normal s"
| "type_lines cfg lines line_idx (line # rest) s =
     and_then (line_step cfg lines line_idx line s)
       (\<lambda>s'. type_lines cfg lines (Suc line_idx) rest s')"

text \<open>Lines 72-78: the countdown over \<^verbatim>\<open>range(countdown, 0, -1)\<close>.\<close>

fun countdown_loop :: "config \<Rightarrow> nat list \<Rightarrow> state \<Rightarrow> flow" where
  "countdown_loop cfg [] s = Normal s"
| "countdown_loop cfg (i # rest) s =
     (let (stopped, s0) = is_set s in
      if stopped then Returned (on_finished cfg s0)
      else and_then
             (sleep Countdown 1
               (schedule_status
                 (''Switch to target window! Starting in '' @ str_of_nat i @ ''s...'') s0))
             (\<lambda>s1. countdown_loop cfg rest s1))"

text \<open>\<^verbatim>\<open>_run\<close>. The result is \<open>Normal\<close> when the text was typed to its end, \<open>Returned\<close>
  when the run saw the stop event, \<open>Raised\<close> when an exception ended the thread.\<close>

definition run :: "config \<Rightarrow> string \<Rightarrow> state \<Rightarrow> flow" where
  "run cfg full_text s =
     and_then (countdown_loop cfg [5, 4, 3, 2, 1] s) (\<lambda>s1.
       and_then (sleep Buffer 0.2 (schedule_status ''Typing...'' s1)) (\<lambda>s2.
         let lines = split (CHR 0x0A) full_text
         in and_then (type_lines cfg lines 0 lines s2) (\<lambda>s3.
              Normal (on_finished cfg (schedule_status ''Done!'' s3)))))"

subsection \<open>Starting and stopping\<close>

text \<open>\<^verbatim>\<open>self._thread\<close>: the text the thread runs \<^verbatim>\<open>_run\<close> on, and whether the thread is
  alive.\<close>

datatype thread = Thread (target_text: string) (is_alive: bool)

record simulator =
  stop_event_set :: bool          \<comment> \<open>\<^verbatim>\<open>self._stop_event\<close>\<close>
  thread :: "thread option"       \<comment> \<open>\<^verbatim>\<open>self._thread\<close>\<close>
  threads_started :: "string list" \<comment> \<open>the texts of the \<^verbatim>\<open>_run\<close> threads started so far\<close>

text \<open>\<^verbatim>\<open>self._thread and self._thread.is_alive()\<close>\<close>

definition active :: "simulator \<Rightarrow> bool" where
  "active sm = (case thread sm of None \<Rightarrow> False | Some t \<Rightarrow> is_alive t)"

definition start :: "string \<Rightarrow> simulator \<Rightarrow> simulator" where
  "start full_text sm =
     (if active sm then sm
      else sm\<lparr>stop_event_set := False,
              thread := Some (Thread full_text True),
              threads_started := threads_started sm @ [full_text]\<rparr>)"

definition stop :: "simulator \<Rightarrow> simulator" where
  "stop sm = sm\<lparr>stop_event_set := True\<rparr>"

text \<open>The window as far as \<^verbatim>\<open>start_typing\<close> (lines 414-436) changes it: the message boxes
  shown, the status label, whether the controls are disabled, whether the panic window
  is up, and the simulator.\<close>

record gui =
  sim :: simulator
  dialogs :: "(string \<times> string) list"
  status_label :: string
  controls_disabled :: bool
  panic_window :: bool

text \<open>\<open>source_text\<close> is what \<^verbatim>\<open>source_text.get("1.0", tk.END)\<close> returns.\<close>

definition start_typing :: "string \<Rightarrow> gui \<Rightarrow> gui" where
  "start_typing source_text g =
     (let full_text = rstrip_newline source_text in
      if strip full_text = [] then
        g\<lparr>dialogs := dialogs g @ [(''No text'', ''Please provide some text to type.'')]\<rparr>
      else
        g\<lparr>controls_disabled := True,
          status_label := ''Switch to your target window NOW! (5 seconds...)'',
          panic_window := True,
          sim := start full_text (sim g)\<rparr>)"

subsection \<open>Reading a list of actions; inputs\<close>

fun pressed :: "action list \<Rightarrow> key list" where
  "pressed [] = []"
| "pressed (Press k # as) = k # pressed as"
| "pressed (a # as) = pressed as"

fun sleeps_at :: "site \<Rightarrow> action list \<Rightarrow> real list" where
  "sleeps_at k [] = []"
| "sleeps_at k (Sleep k' t # as) = (if k' = k then t # sleeps_at k as else sleeps_at k as)"
| "sleeps_at k (a # as) = sleeps_at k as"

definition undated :: "action list \<Rightarrow> action list" where
  "undated = map (\<lambda>a. case a of Sleep k t \<Rightarrow> Sleep k 0 | _ \<Rightarrow> a)"

definition callbacks :: "action list \<Rightarrow> nat" where
  "callbacks as = length (filter (\<lambda>a. a = CallbackScheduled) as)"

definition never_stopped :: "state \<Rightarrow> bool" where
  "never_stopped s = (\<forall>n. \<not> stop_event s n)"

definition unit_draws :: "state \<Rightarrow> bool" where
  "unit_draws s = (\<forall>n. 0 \<le> rnd s n \<and> rnd s n < 1)"

definition fresh :: "(nat \<Rightarrow> real) \<Rightarrow> (nat \<Rightarrow> nat) \<Rightarrow> state" where
  "fresh r p = \<lparr>rnd = r, picks = p, stop_event = (\<lambda>n. False), out = []\<rparr>"

definition settings :: "real \<Rightarrow> real \<Rightarrow> (key \<Rightarrow> bool) \<Rightarrow> bool \<Rightarrow> config" where
  "settings typo_rate pause_freq raises callback =
     \<lparr>get_wpm = 60, get_typo_rate = typo_rate, get_pause_freq = pause_freq,
      get_sentence_pause = 1.0, get_paragraph_pause = 2.0, get_speed_variation = 0.4,
      get_mistake_correction_delay = 0.3, keyboard_raises = raises,
      stop_callback = callback\<rparr>"


definition idle :: simulator where
  "idle = \<lparr>stop_event_set = False, thread = None, threads_started = []\<rparr>"

definition window :: gui where
  "window = \<lparr>sim = idle, dialogs = [],
     status_label = ''Ready - Click 'Type' then switch to target window'',
     controls_disabled = False, panic_window = False\<rparr>"

text \<open>The keys that \<^verbatim>\<open>_run\<close> presses outside \<^verbatim>\<open>_type_char\<close> do not raise.\<close>

definition special_keys_ok :: "config \<Rightarrow> bool" where
  "special_keys_ok cfg = (\<not> keyboard_raises cfg Key_space \<and> \<not> keyboard_raises cfg Key_enter
     \<and> \<not> keyboard_raises cfg Key_backspace)"

text \<open>The three settings that are lengths of sleeps are not negative.\<close>

definition pauses_ok :: "config \<Rightarrow> bool" where
  "pauses_ok cfg = (0 \<le> get_sentence_pause cfg \<and> 0 \<le> get_paragraph_pause cfg
     \<and> 0 \<le> get_mistake_correction_delay cfg)"

text \<open>What a piece of \<^verbatim>\<open>_run\<close> does to the number of hand-offs: none when it falls
  through (and the draws to come are still in [0, 1)), one (if there is a callback) when
  it returns, none when it raises, which takes a special key that raises or a negative
  setting.\<close>

definition tidy :: "config \<Rightarrow> state \<Rightarrow> flow \<Rightarrow> bool" where
  "tidy cfg s f = (case f of
      Normal s' \<Rightarrow> callbacks (out s') = callbacks (out s) \<and> unit_draws s'
    | Returned s' \<Rightarrow> callbacks (out s') = callbacks (out s) + (if stop_callback cfg then 1 else 0)
    | Raised s' \<Rightarrow> callbacks (out s') = callbacks (out s)
        \<and> \<not> (special_keys_ok cfg \<and> pauses_ok cfg))"

text \<open>The presses of the space key, and the pauses of lines 163-176, in a list of
  actions.\<close>

definition spaces :: "action list \<Rightarrow> nat" where
  "spaces as = length (filter (\<lambda>a. a = Press Key_space) as)"

fun is_word_pause :: "action \<Rightarrow> bool" where
  "is_word_pause (Sleep k t) = (k \<in> {SentencePause, ClausePause, ThoughtfulPause, WordGap})"
| "is_word_pause a = False"

definition word_pauses :: "action list \<Rightarrow> nat" where
  "word_pauses as = length (filter is_word_pause as)"

text \<open>A piece of \<^verbatim>\<open>_run\<close> presses the space key at most \<open>n\<close> times, and sleeps at most
  \<open>n\<close> of the pauses between words.\<close>

definition at_most :: "nat \<Rightarrow> state \<Rightarrow> flow \<Rightarrow> bool" where
  "at_most n s f = (spaces (out (flow_state f)) \<le> spaces (out s) + n
     \<and> word_pauses (out (flow_state f)) \<le> word_pauses (out s) + n)"


text \<open>The sleep after an intended character (line 148) is at least 0.01 s; and a piece
  of \<^verbatim>\<open>_run\<close> keeps it so in the list of actions.\<close>

fun char_sleep_ok :: "action \<Rightarrow> bool" where
  "char_sleep_ok (Sleep k t) = (k = CharDelay \<longrightarrow> 0.01 \<le> t)"
| "char_sleep_ok a = True"

definition keeps :: "state \<Rightarrow> flow \<Rightarrow> bool" where
  "keeps s f = (list_all char_sleep_ok (out s) \<longrightarrow> list_all char_sleep_ok (out (flow_state f)))"

section \<open>Properties\<close>

subsection \<open>Lists of actions\<close>

lemma pressed_append [simp]: "pressed (xs @ ys) = pressed xs @ pressed ys"
  by (induction xs rule: pressed.induct) simp_all

lemma sleeps_at_append [simp]: "sleeps_at k (xs @ ys) = sleeps_at k xs @ sleeps_at k ys"
  by (induction k xs rule: sleeps_at.induct) simp_all

lemma undated_append [simp]: "undated (xs @ ys) = undated xs @ undated ys"
  by (simp add: undated_def)

lemma undated_Nil [simp]: "undated [] = []"
  by (simp add: undated_def)

lemma undated_Cons [simp]:
  "undated (Press k # as) = Press k # undated as"
  "undated (Sleep st t # as) = Sleep st 0 # undated as"
  "undated (Status m # as) = Status m # undated as"
  "undated (CallbackScheduled # as) = CallbackScheduled # undated as"
  by (simp_all add: undated_def)

lemma callbacks_append [simp]: "callbacks (xs @ ys) = callbacks xs + callbacks ys"
  by (simp add: callbacks_def)

lemma callbacks_simps [simp]:
  "callbacks [] = 0"
  "callbacks (Press k # as) = callbacks as"
  "callbacks (Sleep st t # as) = callbacks as"
  "callbacks (Status m # as) = callbacks as"
  "callbacks (CallbackScheduled # as) = Suc (callbacks as)"
  by (simp_all add: callbacks_def)

subsection \<open>What the primitives do to the state\<close>

lemma emit_proj [simp]:
  "out (emit a s) = out s @ [a]" "rnd (emit a s) = rnd s" "picks (emit a s) = picks s"
  "stop_event (emit a s) = stop_event s"
  by (simp_all add: emit_def)

lemma and_then_Normal [simp]: "and_then f Normal = f"
  by (cases f) simp_all

lemma and_then_assoc: "and_then (and_then f g) h = and_then f (\<lambda>s. and_then (g s) h)"
  by (cases f) simp_all

lemma sleep_nonneg [simp]: "0 \<le> t \<Longrightarrow> sleep k t s = Normal (emit (Sleep k t) s)"
  by (simp add: sleep_def)

lemma sleep_neg: "t < 0 \<Longrightarrow> sleep k t s = Raised s"
  by (simp add: sleep_def)

lemma sleep_out:
  "out (flow_state (sleep k t s)) = out s @ (if t < 0 then [] else [Sleep k t])"
  by (simp add: sleep_def)

lemma schedule_status_proj [simp]:
  "out (schedule_status m s) = out s @ [Status m]" "rnd (schedule_status m s) = rnd s"
  "picks (schedule_status m s) = picks s" "stop_event (schedule_status m s) = stop_event s"
  by (simp_all add: schedule_status_def)

lemma on_finished_proj [simp]:
  "out (on_finished cfg s) = out s @ (if stop_callback cfg then [CallbackScheduled] else [])"
  "rnd (on_finished cfg s) = rnd s" "picks (on_finished cfg s) = picks s"
  "stop_event (on_finished cfg s) = stop_event s"
  by (simp_all add: on_finished_def)

lemma type_char_proj [simp]:
  "out (type_char cfg ch s) = out s @ [Press (KeyChar ch)]" "rnd (type_char cfg ch s) = rnd s"
  "picks (type_char cfg ch s) = picks s" "stop_event (type_char cfg ch s) = stop_event s"
  by (simp_all add: type_char_def press_release_def)

lemma press_release_cases:
  "\<not> keyboard_raises cfg k \<Longrightarrow> press_release cfg k s = Normal (emit (Press k) s)"
  "keyboard_raises cfg k \<Longrightarrow> press_release cfg k s = Raised (emit (Press k) s)"
  by (simp_all add: press_release_def)

lemma is_set_proj [simp]:
  "fst (is_set s) = stop_event s 0"
  "out (snd (is_set s)) = out s" "rnd (snd (is_set s)) = rnd s"
  "picks (snd (is_set s)) = picks s"
  "stop_event (snd (is_set s)) n = stop_event s (Suc n)"
  by (simp_all add: is_set_def)

lemma random_random_proj [simp]:
  "fst (random_random s) = rnd s 0"
  "out (snd (random_random s)) = out s" "rnd (snd (random_random s)) n = rnd s (Suc n)"
  "picks (snd (random_random s)) = picks s"
  "stop_event (snd (random_random s)) = stop_event s"
  by (simp_all add: random_random_def)

lemma random_uniform_proj [simp]:
  "out (snd (random_uniform a b s)) = out s" "rnd (snd (random_uniform a b s)) n = rnd s (Suc n)"
  "picks (snd (random_uniform a b s)) = picks s"
  "stop_event (snd (random_uniform a b s)) = stop_event s"
  by (simp_all add: random_uniform_def random_random_def)

lemma random_uniform_fst: "fst (random_uniform a b s) = a + (b - a) * rnd s 0"
  by (simp add: random_uniform_def random_random_def)

lemma random_choice_proj [simp]:
  "fst (random_choice seq s) = seq ! (picks s 0 mod length seq)"
  "out (snd (random_choice seq s)) = out s" "rnd (snd (random_choice seq s)) = rnd s"
  "picks (snd (random_choice seq s)) n = picks s (Suc n)"
  "stop_event (snd (random_choice seq s)) = stop_event s"
  by (simp_all add: random_choice_def)

lemma choose_typo_char_proj [simp]:
  "out (snd (choose_typo_char c s)) = out s"
  "rnd (snd (choose_typo_char c s)) n = rnd s (Suc n)"
  "stop_event (snd (choose_typo_char c s)) = stop_event s"
  by (simp_all add: choose_typo_char_def split_def Let_def)

lemma never_stoppedD: "never_stopped s \<Longrightarrow> \<not> stop_event s n"
  by (simp add: never_stopped_def)

lemma unit_drawsD: "unit_draws s \<Longrightarrow> 0 \<le> rnd s n" "unit_draws s \<Longrightarrow> rnd s n < 1"
  by (simp_all add: unit_draws_def)

lemma never_stopped_prims [simp]:
  "never_stopped (emit a s) = never_stopped s"
  "never_stopped (schedule_status m s) = never_stopped s"
  "never_stopped (on_finished cfg s) = never_stopped s"
  "never_stopped (type_char cfg ch s) = never_stopped s"
  "never_stopped (snd (random_random s)) = never_stopped s"
  "never_stopped (snd (random_uniform lo hi s)) = never_stopped s"
  "never_stopped (snd (random_choice seq s)) = never_stopped s"
  "never_stopped (snd (choose_typo_char c s)) = never_stopped s"
  by (simp_all add: never_stopped_def)

lemma never_stopped_is_set [simp]: "never_stopped s \<Longrightarrow> never_stopped (snd (is_set s))"
  by (simp add: never_stopped_def)

lemma unit_draws_prims [simp]:
  "unit_draws (emit a s) = unit_draws s"
  "unit_draws (schedule_status m s) = unit_draws s"
  "unit_draws (on_finished cfg s) = unit_draws s"
  "unit_draws (type_char cfg ch s) = unit_draws s"
  "unit_draws (snd (is_set s)) = unit_draws s"
  "unit_draws (snd (random_choice seq s)) = unit_draws s"
  by (simp_all add: unit_draws_def)

lemma unit_draws_random [simp]:
  "unit_draws s \<Longrightarrow> unit_draws (snd (random_random s))"
  "unit_draws s \<Longrightarrow> unit_draws (snd (random_uniform a b s))"
  "unit_draws s \<Longrightarrow> unit_draws (snd (choose_typo_char c s))"
  by (simp_all add: unit_draws_def)

text \<open>No sleep of \<^verbatim>\<open>_run\<close> is negative when the draws are in [0, 1) and the settings are
  not negative.\<close>

lemma draw_nonneg [simp]: "unit_draws s \<Longrightarrow> 0 \<le> fst (random_random s)"
  by (simp add: unit_drawsD)

lemma uniform_nonneg [simp]:
  "unit_draws s \<Longrightarrow> 0 \<le> a \<Longrightarrow> a \<le> b \<Longrightarrow> 0 \<le> fst (random_uniform a b s)"
  by (simp add: random_uniform_fst unit_drawsD)

lemma sleep_time_nonneg [simp]: "0 \<le> sleep_time cd u"
  by (simp add: sleep_time_def Let_def)

lemma char_delay_pos [simp]: "0 < char_delay cfg m" "0 \<le> char_delay cfg m"
  by (simp_all add: char_delay_def)

subsection \<open>Letters\<close>

lemma swapcase_letter_all: "list_all (\<lambda>c. swapcase c \<in> set ascii_letters) ascii_letters"
  by code_simp

lemma vowels_letters: "list_all (\<lambda>c. c \<in> set ascii_letters) vowels"
  by code_simp

lemma consonants_letters: "list_all (\<lambda>c. c \<in> set ascii_letters) consonants"
  by code_simp

lemma choice_in: "seq \<noteq> [] \<Longrightarrow> list_all P seq \<Longrightarrow> P (fst (random_choice seq s))"
  by (simp add: list_all_iff)

lemma typo_char_letter:
  assumes "isalpha c"
  shows "fst (choose_typo_char c s) \<in> set ascii_letters"
proof -
  have sw: "swapcase c \<in> set ascii_letters"
    using assms swapcase_letter_all by (simp add: isalpha_def list_all_iff)
  have v: "fst (random_choice vowels t) \<in> set ascii_letters" for t
    by (rule choice_in [OF _ vowels_letters]) (simp add: vowels_def)
  have c: "fst (random_choice consonants t) \<in> set ascii_letters" for t
    by (rule choice_in [OF _ consonants_letters]) (simp add: consonants_def)
  have l: "fst (random_choice ascii_letters t) \<in> set ascii_letters" for t
    using nth_mem [of "picks t 0 mod length ascii_letters" ascii_letters]
    by (simp add: ascii_letters_def ascii_lowercase_def ascii_uppercase_def)
  show ?thesis
    unfolding choose_typo_char_def Let_def split_def
    using sw v c l by (simp del: random_choice_proj)
qed


subsection \<open>A run that is not stopped\<close>

lemma never_stopped_cong:
  "(\<And>n. stop_event s' n = stop_event s (n + k)) \<Longrightarrow> never_stopped s \<Longrightarrow> never_stopped s'"
  by (simp add: never_stopped_def)

lemma unit_draws_cong:
  "(\<And>n. rnd s' n = rnd s (n + k)) \<Longrightarrow> unit_draws s \<Longrightarrow> unit_draws s'"
  by (simp add: unit_draws_def)

lemma char_step_plain:
  assumes "never_stopped s" "unit_draws s" "get_typo_rate cfg \<le> 0"
  shows "\<exists>s'. char_step cfg cd ch s = Normal s' \<and> never_stopped s' \<and> unit_draws s'
     \<and> undated (out s') = undated (out s) @ [Press (KeyChar ch), Sleep CharDelay 0]"
proof -
  have a: "\<not> stop_event s 0" using assms(1) by (rule never_stoppedD)
  have b: "\<not> rnd s 0 < get_typo_rate cfg"
    using unit_drawsD(1) [OF assms(2), of 0] assms(3) by simp
  let ?s' = "flow_state (char_step cfg cd ch s)"
  have e: "char_step cfg cd ch s = Normal ?s'"
    using a b by (simp add: char_step_def Let_def split_def)
  have o: "undated (out ?s') = undated (out s) @ [Press (KeyChar ch), Sleep CharDelay 0]"
    using a b by (simp add: char_step_def Let_def split_def)
  have n: "never_stopped ?s'"
    using a b assms(1) by (simp add: char_step_def Let_def split_def)
  have u: "unit_draws ?s'"
    using a b assms(2) by (simp add: char_step_def Let_def split_def)
  show ?thesis using e o n u by blast
qed

lemma char_step_typo:
  assumes "never_stopped s" "unit_draws s" "rnd s 0 < get_typo_rate cfg" "isalpha ch"
    "\<not> keyboard_raises cfg Key_backspace" "0 \<le> cd" "0 \<le> get_mistake_correction_delay cfg"
  shows "\<exists>s'. char_step cfg cd ch s = Normal s' \<and> never_stopped s' \<and> unit_draws s'
     \<and> undated (out s') = undated (out s) @
          [Press (KeyChar (fst (choose_typo_char ch (snd (random_random (snd (is_set s))))))),
           Sleep TypoDelay 0, Sleep CorrectionDelay 0,
           Press Key_backspace, Sleep BackspaceDelay 0,
           Press (KeyChar ch), Sleep CharDelay 0]"
proof -
  have a: "\<not> stop_event s 0" "0 \<le> rnd s (Suc (Suc (Suc (Suc 0))))"
    using assms(1,2) by (simp_all add: never_stoppedD unit_drawsD)
  let ?s' = "flow_state (char_step cfg cd ch s)"
  note defs = char_step_def typo_cycle_def Let_def split_def
    press_release_cases(1) [OF assms(5)] mult_nonneg_nonneg
  have e: "char_step cfg cd ch s = Normal ?s'"
    using a assms(2,3,4,6,7) by (simp add: defs)
  have o: "undated (out ?s') = undated (out s) @
          [Press (KeyChar (fst (choose_typo_char ch (snd (random_random (snd (is_set s))))))),
           Sleep TypoDelay 0, Sleep CorrectionDelay 0,
           Press Key_backspace, Sleep BackspaceDelay 0,
           Press (KeyChar ch), Sleep CharDelay 0]"
    using a assms(2,3,4,6,7) by (simp add: defs)
  have n: "never_stopped ?s'"
    using a assms by (simp add: defs)
  have u: "unit_draws ?s'"
    using a assms by (simp add: defs)
  show ?thesis using e o n u by blast
qed

lemma char_step_typo_letter:
  assumes "never_stopped s" "unit_draws s" "1 \<le> get_typo_rate cfg" "isalpha ch"
    "\<not> keyboard_raises cfg Key_backspace" "0 \<le> cd" "0 \<le> get_mistake_correction_delay cfg"
  shows "\<exists>s' w. char_step cfg cd ch s = Normal s' \<and> never_stopped s' \<and> unit_draws s'
     \<and> w \<in> set ascii_letters
     \<and> undated (out s') = undated (out s) @
          [Press (KeyChar w), Sleep TypoDelay 0, Sleep CorrectionDelay 0,
           Press Key_backspace, Sleep BackspaceDelay 0,
           Press (KeyChar ch), Sleep CharDelay 0]"
proof -
  have b: "rnd s 0 < get_typo_rate cfg"
    using unit_drawsD(2) [OF assms(2), of 0] assms(3) by simp
  have "fst (choose_typo_char ch (snd (random_random (snd (is_set s))))) \<in> set ascii_letters"
    using assms(4) by (rule typo_char_letter)
  then show ?thesis
    using char_step_typo [OF assms(1,2) b assms(4-7)] by blast
qed

lemma type_chars_plain:
  assumes "never_stopped s" "unit_draws s" "get_typo_rate cfg \<le> 0"
  shows "\<exists>s'. type_chars cfg cd w s = Normal s' \<and> never_stopped s' \<and> unit_draws s'
     \<and> undated (out s') =
         undated (out s) @ concat (map (\<lambda>ch. [Press (KeyChar ch), Sleep CharDelay 0]) w)"
  using assms(1,2)
proof (induction w arbitrary: s)
  case Nil
  then show ?case by simp
next
  case (Cons ch w)
  from char_step_plain [OF Cons.prems assms(3), of cd ch]
  obtain s1 where 1: "char_step cfg cd ch s = Normal s1" "never_stopped s1" "unit_draws s1"
    "undated (out s1) = undated (out s) @ [Press (KeyChar ch), Sleep CharDelay 0]"
    by blast
  from Cons.IH [OF 1(2,3)]
  obtain s' where 2: "type_chars cfg cd w s1 = Normal s'" "never_stopped s'" "unit_draws s'"
    "undated (out s') =
       undated (out s1) @ concat (map (\<lambda>ch. [Press (KeyChar ch), Sleep CharDelay 0]) w)"
    by blast
  show ?case using 1 2 by simp
qed

lemma countdown_calm:
  assumes "never_stopped s"
  shows "\<exists>s'. countdown_loop cfg ticks s = Normal s' \<and> never_stopped s'
     \<and> unit_draws s' = unit_draws s
     \<and> undated (out s') = undated (out s) @ concat (map (\<lambda>i.
          [Status (''Switch to target window! Starting in '' @ str_of_nat i @ ''s...''),
           Sleep Countdown 0]) ticks)"
  using assms
proof (induction ticks arbitrary: s)
  case Nil
  then show ?case by simp
next
  case (Cons i ticks)
  let ?s1 = "emit (Sleep Countdown 1) (schedule_status
     (''Switch to target window! Starting in '' @ str_of_nat i @ ''s...'') (snd (is_set s)))"
  have n: "never_stopped ?s1" using Cons.prems by simp
  have e: "countdown_loop cfg (i # ticks) s = countdown_loop cfg ticks ?s1"
    using never_stoppedD [OF Cons.prems, of 0] by (simp add: split_def)
  from Cons.IH [OF n] show ?case unfolding e by simp
qed

lemma word_step_only:
  assumes "\<not> stop_event s 0" "word \<noteq> []"
  shows "type_words cfg [word] 0 [word] s =
     (let r = random_uniform (1.0 - get_speed_variation cfg) (1.0 + get_speed_variation cfg)
                (snd (is_set s))
      in type_chars cfg (char_delay cfg (fst r)) word (snd r))"
proof -
  have 1: "and_then f (inter_word cfg [word] 0 word) = f" for f
    by (cases f) (simp_all add: inter_word_def)
  have 2: "and_then f (type_words cfg [word] (Suc 0) []) = f" for f
    by (cases f) simp_all
  show ?thesis
    using assms by (simp add: word_step_def Let_def split_def 1 2)
qed

lemma end_of_line_last:
  "\<not> int line_idx < int (length lines) - 1 \<Longrightarrow> end_of_line cfg lines line_idx s = Normal s"
  by (simp add: end_of_line_def)

lemma end_of_line_enter:
  assumes "int line_idx < int (length lines) - 1" "never_stopped s" "unit_draws s"
    "\<not> keyboard_raises cfg Key_enter"
  shows "\<exists>s'. end_of_line cfg lines line_idx s = Normal s' \<and> never_stopped s' \<and> unit_draws s'
     \<and> undated (out s') = undated (out s) @
         [Press Key_enter,
          Sleep (if strip (lines ! (line_idx + 1)) = [] then ParagraphBreakGap else LineGap) 0]"
proof -
  have a: "\<not> stop_event s 0" using assms(2) by (rule never_stoppedD)
  have l: "line_idx + 1 < length lines" using assms(1) by simp
  let ?s' = "flow_state (end_of_line cfg lines line_idx s)"
  note defs = end_of_line_def Let_def split_def press_release_cases(1) [OF assms(4)]
  have e: "end_of_line cfg lines line_idx s = Normal ?s'"
    using a l assms(1,3) by (simp add: defs)
  have o: "undated (out ?s') = undated (out s) @
         [Press Key_enter,
          Sleep (if strip (lines ! (line_idx + 1)) = [] then ParagraphBreakGap else LineGap) 0]"
    using a l assms(1,3) by (simp add: defs)
  have n: "never_stopped ?s'" using a l assms(1,2,3) by (simp add: defs)
  have u: "unit_draws ?s'" using a l assms(1,3) by (simp add: defs)
  show ?thesis using e o n u by blast
qed

lemma line_step_one_word:
  assumes "never_stopped s" "words_of line = [line]" "line \<noteq> []"
    "\<not> (0 < line_idx \<and> strip (lines ! (line_idx - 1)) = [] \<and> strip line \<noteq> [])"
  shows "line_step cfg lines line_idx line s =
     (let r = random_uniform (1.0 - get_speed_variation cfg) (1.0 + get_speed_variation cfg)
                (snd (is_set (snd (is_set s))))
      in and_then (type_chars cfg (char_delay cfg (fst r)) line (snd r))
           (\<lambda>s2. end_of_line cfg lines line_idx s2))"
proof -
  have a: "\<not> stop_event s 0" "\<not> stop_event s (Suc 0)"
    using assms(1) by (simp_all add: never_stoppedD)
  have w: "type_words cfg [line] 0 [line] (snd (is_set s)) =
     (let r = random_uniform (1.0 - get_speed_variation cfg) (1.0 + get_speed_variation cfg)
                (snd (is_set (snd (is_set s))))
      in type_chars cfg (char_delay cfg (fst r)) line (snd r))"
    by (rule word_step_only) (simp_all add: a assms(3))
  have p: "(line_idx > 0 \<and> strip (lines ! (line_idx - 1)) = [] \<and> strip line \<noteq> []) = False"
    using assms(4) by simp
  show ?thesis
    by (simp only: line_step_def Let_def split_def is_set_proj a if_False p assms(2)
          w [unfolded Let_def] and_then.simps)
qed

lemma split_hi_bye: "split (CHR 0x0A) ''Hi.\<newline>Bye'' = [''Hi.'', ''Bye'']"
  by simp

lemma words_hi: "words_of ''Hi.'' = [''Hi.'']" "words_of ''Bye'' = [''Bye'']"
  by (simp_all add: words_of_def strip_def isspace_def whitespace_def)

lemma strip_hi: "strip ''Hi.'' \<noteq> []" "strip ''Bye'' \<noteq> []"
  by (simp_all add: strip_def isspace_def whitespace_def)

lemma pressed_undated [simp]: "pressed (undated as) = pressed as"
  by (induction as rule: pressed.induct) simp_all

lemma callbacks_undated [simp]: "callbacks (undated as) = callbacks as"
  by (induction as rule: pressed.induct) simp_all

lemma words_cat: "words_of ''cat'' = [''cat'']"
  by (simp add: words_of_def strip_def isspace_def whitespace_def)

lemma alpha_cat: "isalpha CHR ''c''" "isalpha CHR ''a''" "isalpha CHR ''t''"
  by (simp_all add: isalpha_def ascii_letters_def ascii_lowercase_def)

lemmas run_defs = run_def line_step_def end_of_line_def words_of_def word_step_def
  inter_word_def char_step_def typo_cycle_def choose_typo_char_def press_release_def
  sleep_def Let_def split_def fresh_def settings_def

lemmas time_defs = random_uniform_fst char_delay_def base_cps_def effective_cps_def
  sleep_time_def

lemmas str_defs = ascii_lowercase_def ascii_uppercase_def ascii_letters_def vowels_def
  consonants_def whitespace_def isalpha_def isspace_def lower_def swapcase_def str_in_def
  strip_def

lemma fresh_calm: "never_stopped (fresh r p)" "out (fresh r p) = []"
  "(\<forall>n. 0 \<le> r n \<and> r n < 1) \<Longrightarrow> unit_draws (fresh r p)"
  by (simp_all add: fresh_def never_stopped_def unit_draws_def)

subsection \<open>The hand-off of the callback\<close>

lemma tidy_bind:
  assumes "tidy cfg s f" "\<And>s1. f = Normal s1 \<Longrightarrow> unit_draws s1 \<Longrightarrow> tidy cfg s1 (g s1)"
  shows "tidy cfg s (and_then f g)"
proof (cases f)
  case (Normal s1)
  then have 1: "callbacks (out s1) = callbacks (out s)" "unit_draws s1"
    using assms(1) by (simp_all add: tidy_def)
  have "tidy cfg s1 (g s1)" using assms(2) Normal 1(2) by simp
  then show ?thesis using Normal 1(1) by (simp add: tidy_def split: flow.splits)
next
  case (Returned x)
  then show ?thesis using assms(1) by simp
next
  case (Raised x)
  then show ?thesis using assms(1) by simp
qed

lemma tidy_frame:
  "callbacks (out s0) = callbacks (out s) \<Longrightarrow> tidy cfg s0 f \<Longrightarrow> tidy cfg s f"
  by (simp add: tidy_def split: flow.splits)

lemma tidy_Normal:
  "callbacks (out s') = callbacks (out s) \<Longrightarrow> unit_draws s' \<Longrightarrow> tidy cfg s (Normal s')"
  by (simp add: tidy_def)

lemma tidy_Returned: "callbacks (out s0) = callbacks (out s) \<Longrightarrow>
    tidy cfg s (Returned (on_finished cfg s0))"
  by (simp add: tidy_def)

lemma tidy_press:
  "k \<in> {Key_space, Key_enter, Key_backspace} \<Longrightarrow> unit_draws s \<Longrightarrow>
     tidy cfg s (press_release cfg k s)"
  by (auto simp add: tidy_def press_release_def special_keys_ok_def)

lemma tidy_sleep:
  "unit_draws s \<Longrightarrow> (pauses_ok cfg \<Longrightarrow> 0 \<le> t) \<Longrightarrow> tidy cfg s (sleep k t s)"
  by (auto simp add: tidy_def sleep_def)

lemma backspace_delay_nonneg: "unit_draws s \<Longrightarrow> 0 \<le> 0.05 + fst (random_random s) * 0.12"
  using draw_nonneg [of s] by (simp del: random_random_proj draw_nonneg)

lemma tidy_typo_cycle:
  assumes "unit_draws s" "0 \<le> cd"
  shows "tidy cfg s (typo_cycle cfg cd ch s)"
proof -
  let ?s2 = "type_char cfg (fst (choose_typo_char ch s)) (snd (choose_typo_char ch s))"
  let ?a = "random_uniform 0.8 1.6 ?s2"
  have u3: "unit_draws (snd ?a)" using assms(1) by simp
  have 1: "tidy cfg (snd ?a) (sleep TypoDelay (cd * fst ?a) (snd ?a))"
    by (rule tidy_sleep [OF u3]) (simp add: assms mult_nonneg_nonneg)
  have 2: "tidy cfg s4 (sleep CorrectionDelay
       (get_mistake_correction_delay cfg * fst (random_uniform 0.8 1.2 s4))
       (snd (random_uniform 0.8 1.2 s4)))" if "unit_draws s4" for s4
    by (rule tidy_frame [OF _ tidy_sleep])
      (simp_all add: that pauses_ok_def mult_nonneg_nonneg)
  have 3: "tidy cfg s7 (sleep BackspaceDelay (0.05 + fst (random_random s7) * 0.12)
       (snd (random_random s7)))" if "unit_draws s7" for s7
    by (rule tidy_frame [OF _ tidy_sleep])
      (simp_all add: that backspace_delay_nonneg del: random_random_proj(1))
  have "tidy cfg (snd ?a) (and_then (sleep TypoDelay (cd * fst ?a) (snd ?a)) (\<lambda>s4.
       and_then (sleep CorrectionDelay
           (get_mistake_correction_delay cfg * fst (random_uniform 0.8 1.2 s4))
           (snd (random_uniform 0.8 1.2 s4))) (\<lambda>s6.
         and_then (press_release cfg Key_backspace s6) (\<lambda>s7.
           sleep BackspaceDelay (0.05 + fst (random_random s7) * 0.12)
             (snd (random_random s7))))))"
    by (intro tidy_bind 1 2 3 tidy_press) simp_all
  then have "tidy cfg s (and_then (sleep TypoDelay (cd * fst ?a) (snd ?a)) (\<lambda>s4.
       and_then (sleep CorrectionDelay
           (get_mistake_correction_delay cfg * fst (random_uniform 0.8 1.2 s4))
           (snd (random_uniform 0.8 1.2 s4))) (\<lambda>s6.
         and_then (press_release cfg Key_backspace s6) (\<lambda>s7.
           sleep BackspaceDelay (0.05 + fst (random_random s7) * 0.12)
             (snd (random_random s7))))))"
    by (rule tidy_frame [rotated]) simp
  then show ?thesis
    by (simp add: typo_cycle_def Let_def split_def del: random_random_proj(1))
qed

lemma tidy_char_step:
  assumes "unit_draws s" "0 \<le> cd"
  shows "tidy cfg s (char_step cfg cd ch s)"
proof (cases "stop_event s 0")
  case True
  then show ?thesis by (simp add: char_step_def Let_def split_def tidy_Returned)
next
  case False
  let ?s1 = "snd (random_random (snd (is_set s)))"
  have u1: "unit_draws ?s1" using assms(1) by simp
  have 1: "tidy cfg ?s1 (if rnd s 0 < get_typo_rate cfg \<and> isalpha ch
       then typo_cycle cfg cd ch ?s1 else Normal ?s1)"
    using u1 assms(2) by (simp add: tidy_typo_cycle tidy_Normal)
  have 2: "tidy cfg s2 (sleep CharDelay
       (sleep_time cd (fst (random_uniform (- 0.4) 0.6 (type_char cfg ch s2))))
       (snd (random_uniform (- 0.4) 0.6 (type_char cfg ch s2))))" if "unit_draws s2" for s2
    by (rule tidy_frame [OF _ tidy_sleep]) (simp_all add: that)
  have "tidy cfg ?s1 (and_then (if rnd s 0 < get_typo_rate cfg \<and> isalpha ch
       then typo_cycle cfg cd ch ?s1 else Normal ?s1) (\<lambda>s2. sleep CharDelay
       (sleep_time cd (fst (random_uniform (- 0.4) 0.6 (type_char cfg ch s2))))
       (snd (random_uniform (- 0.4) 0.6 (type_char cfg ch s2)))))"
    by (rule tidy_bind [OF 1]) (rule 2)
  then have "tidy cfg s (and_then (if rnd s 0 < get_typo_rate cfg \<and> isalpha ch
       then typo_cycle cfg cd ch ?s1 else Normal ?s1) (\<lambda>s2. sleep CharDelay
       (sleep_time cd (fst (random_uniform (- 0.4) 0.6 (type_char cfg ch s2))))
       (snd (random_uniform (- 0.4) 0.6 (type_char cfg ch s2)))))"
    by (rule tidy_frame [rotated]) simp
  then show ?thesis
    using False by (simp add: char_step_def Let_def split_def)
qed

lemma tidy_type_chars:
  assumes "unit_draws s" "0 \<le> cd"
  shows "tidy cfg s (type_chars cfg cd w s)"
  using assms(1)
proof (induction w arbitrary: s)
  case Nil
  then show ?case by (simp add: tidy_Normal)
next
  case (Cons ch w)
  show ?case
    unfolding type_chars.simps
    by (rule tidy_bind [OF tidy_char_step [OF Cons.prems assms(2)]]) (rule Cons.IH)
qed

lemma tidy_inter_word:
  assumes "unit_draws s"
  shows "tidy cfg s (inter_word cfg words w_idx word s)"
proof (cases "int w_idx < int (length words) - 1 \<and> \<not> stop_event s 0")
  case False
  then show ?thesis
    using assms by (auto simp add: inter_word_def Let_def split_def tidy_Returned tidy_Normal)
next
  case True
  let ?s0 = "snd (is_set s)"
  have u0: "unit_draws ?s0" using assms by simp
  define pause where "pause = (\<lambda>s1.
     (let last_char = (if word \<noteq> [] then [last word] else []);
          pause_prob = get_pause_freq cfg
      in if str_in last_char ''.!?'' then
           (let sentence_pause = get_sentence_pause cfg;
                (pause_time, s2) =
                  random_uniform (sentence_pause * 0.7) (sentence_pause * 1.4) s1
            in sleep SentencePause pause_time s2)
         else if str_in last_char '',;:'' then
           (let (t, s2) = random_uniform 0.15 0.45 s1
            in sleep ClausePause t s2)
         else
           (let (u, s2) = random_random s1 in
            if u < pause_prob then
              (let (t, s3) = random_uniform 0.2 0.9 s2
               in sleep ThoughtfulPause t s3)
            else
              (let (t, s3) = random_uniform 0.02 0.12 s2
               in sleep WordGap t s3))))"
  have p: "tidy cfg s1 (pause s1)" if "unit_draws s1" for s1
    unfolding pause_def Let_def split_def
    by (auto intro!: tidy_frame [OF _ tidy_sleep] simp add: that pauses_ok_def
          simp del: sleep_nonneg)
  have e: "inter_word cfg words w_idx word s =
      and_then (press_release cfg Key_space ?s0) pause"
    using True unfolding inter_word_def pause_def by (simp add: split_def)
  have "tidy cfg ?s0 (and_then (press_release cfg Key_space ?s0) pause)"
    by (rule tidy_bind [OF tidy_press [OF _ u0]]) (simp, rule p)
  then show ?thesis
    unfolding e by (rule tidy_frame [rotated]) simp
qed

lemma tidy_word_step:
  assumes "unit_draws s"
  shows "tidy cfg s (word_step cfg words w_idx word s)"
proof (cases "stop_event s 0 \<or> word = []")
  case True
  then show ?thesis
    using assms by (auto simp add: word_step_def Let_def split_def tidy_Returned tidy_Normal)
next
  case False
  let ?r = "random_uniform (1.0 - get_speed_variation cfg) (1.0 + get_speed_variation cfg)
     (snd (is_set s))"
  have u: "unit_draws (snd ?r)" using assms by simp
  have e: "word_step cfg words w_idx word s =
     and_then (type_chars cfg (char_delay cfg (fst ?r)) word (snd ?r))
       (\<lambda>s2. inter_word cfg words w_idx word s2)"
    using False by (simp add: word_step_def Let_def split_def)
  have "tidy cfg (snd ?r) (and_then (type_chars cfg (char_delay cfg (fst ?r)) word (snd ?r))
       (\<lambda>s2. inter_word cfg words w_idx word s2))"
    by (rule tidy_bind [OF tidy_type_chars [OF u]]) (simp_all add: tidy_inter_word)
  then show ?thesis
    unfolding e by (rule tidy_frame [rotated]) simp
qed

lemma tidy_type_words:
  assumes "unit_draws s"
  shows "tidy cfg s (type_words cfg words w_idx ws s)"
  using assms
proof (induction ws arbitrary: s w_idx)
  case Nil
  then show ?case by (simp add: tidy_Normal)
next
  case (Cons word ws)
  show ?case
    unfolding type_words.simps
    by (rule tidy_bind [OF tidy_word_step [OF Cons.prems]]) (rule Cons.IH)
qed

lemma tidy_end_of_line:
  assumes "unit_draws s"
  shows "tidy cfg s (end_of_line cfg lines line_idx s)"
proof (cases "int line_idx < int (length lines) - 1 \<and> \<not> stop_event s 0")
  case False
  then show ?thesis
    using assms by (auto simp add: end_of_line_def Let_def split_def tidy_Returned tidy_Normal)
next
  case True
  let ?s0 = "snd (is_set s)"
  have u0: "unit_draws ?s0" using assms by simp
  define gap where "gap = (\<lambda>s1.
     if line_idx + 1 < length lines \<and> strip (lines ! (line_idx + 1)) = [] then
       (let (t, s2) = random_uniform 0.1 0.25 s1
        in sleep ParagraphBreakGap t s2)
     else
       (let (t, s2) = random_uniform 0.05 0.15 s1
        in sleep LineGap t s2))"
  have p: "tidy cfg s1 (gap s1)" if "unit_draws s1" for s1
    unfolding gap_def Let_def split_def
    by (auto intro!: tidy_frame [OF _ tidy_sleep] simp add: that simp del: sleep_nonneg)
  have e: "end_of_line cfg lines line_idx s =
      and_then (press_release cfg Key_enter ?s0) gap"
    using True unfolding end_of_line_def gap_def by (simp add: split_def)
  have "tidy cfg ?s0 (and_then (press_release cfg Key_enter ?s0) gap)"
    by (rule tidy_bind [OF tidy_press [OF _ u0]]) (simp, rule p)
  then show ?thesis
    unfolding e by (rule tidy_frame [rotated]) simp
qed

lemma tidy_line_step:
  assumes "unit_draws s"
  shows "tidy cfg s (line_step cfg lines line_idx line s)"
proof (cases "stop_event s 0")
  case True
  then show ?thesis
    by (simp add: line_step_def Let_def split_def tidy_Returned)
next
  case False
  let ?s0 = "snd (is_set s)"
  have u0: "unit_draws ?s0" using assms by simp
  define before where "before =
    (if line_idx > 0 \<and> strip (lines ! (line_idx - 1)) = [] \<and> strip line \<noteq> [] then
       (let paragraph_pause = get_paragraph_pause cfg;
            (t, s') = random_uniform (paragraph_pause * 0.8) (paragraph_pause * 1.3) ?s0
        in sleep ParagraphPause t s')
     else Normal ?s0)"
  have b: "tidy cfg ?s0 before"
    unfolding before_def Let_def split_def
    by (auto intro!: tidy_frame [OF _ tidy_sleep] tidy_Normal simp add: assms pauses_ok_def
          simp del: sleep_nonneg)
  have e: "line_step cfg lines line_idx line s =
     and_then before (\<lambda>s1. and_then (type_words cfg (words_of line) 0 (words_of line) s1)
        (\<lambda>s2. end_of_line cfg lines line_idx s2))"
    using False unfolding line_step_def before_def by (simp add: split_def Let_def)
  have "tidy cfg ?s0 (and_then before (\<lambda>s1.
       and_then (type_words cfg (words_of line) 0 (words_of line) s1)
        (\<lambda>s2. end_of_line cfg lines line_idx s2)))"
    by (intro tidy_bind b tidy_type_words tidy_end_of_line)
  then show ?thesis
    unfolding e by (rule tidy_frame [rotated]) simp
qed

lemma tidy_type_lines:
  assumes "unit_draws s"
  shows "tidy cfg s (type_lines cfg lines line_idx ls s)"
  using assms
proof (induction ls arbitrary: s line_idx)
  case Nil
  then show ?case by (simp add: tidy_Normal)
next
  case (Cons line ls)
  show ?case
    unfolding type_lines.simps
    by (rule tidy_bind [OF tidy_line_step [OF Cons.prems]]) (rule Cons.IH)
qed

lemma tidy_countdown:
  assumes "unit_draws s"
  shows "tidy cfg s (countdown_loop cfg ticks s)"
  using assms
proof (induction ticks arbitrary: s)
  case Nil
  then show ?case by (simp add: tidy_Normal)
next
  case (Cons i ticks)
  let ?s1 = "emit (Sleep Countdown 1) (schedule_status
     (''Switch to target window! Starting in '' @ str_of_nat i @ ''s...'') (snd (is_set s)))"
  have "tidy cfg s (countdown_loop cfg ticks ?s1)"
    by (rule tidy_frame [OF _ Cons.IH]) (simp_all add: Cons.prems)
  then show ?case
    by (simp add: Let_def split_def tidy_Returned)
qed

lemma tidy_run:
  assumes "unit_draws s"
  shows "tidy cfg s (and_then (countdown_loop cfg [5, 4, 3, 2, 1] s) (\<lambda>s1.
       and_then (sleep Buffer 0.2 (schedule_status ''Typing...'' s1)) (\<lambda>s2.
         and_then (type_lines cfg (split (CHR 0x0A) full_text) 0
             (split (CHR 0x0A) full_text) s2) Normal)))"
proof -
  have 1: "tidy cfg s1 (sleep Buffer 0.2 (schedule_status ''Typing...'' s1))"
    if "unit_draws s1" for s1
    using that by (simp add: tidy_Normal)
  show ?thesis
    by (intro tidy_bind tidy_countdown assms 1 tidy_type_lines) (simp_all add: tidy_Normal)
qed

lemma run_tidy:
  assumes "unit_draws s"
  shows run_callbacks: "callbacks (out (flow_state (run cfg full_text s))) =
     callbacks (out s) + (if stop_callback cfg \<and> ending_of (run cfg full_text s) \<noteq> Crashed
                          then 1 else 0)"
    and run_crash: "ending_of (run cfg full_text s) = Crashed \<Longrightarrow>
       \<not> (special_keys_ok cfg \<and> pauses_ok cfg)"
proof -
  let ?f = "and_then (countdown_loop cfg [5, 4, 3, 2, 1] s) (\<lambda>s1.
       and_then (sleep Buffer 0.2 (schedule_status ''Typing...'' s1)) (\<lambda>s2.
         and_then (type_lines cfg (split (CHR 0x0A) full_text) 0
             (split (CHR 0x0A) full_text) s2) Normal))"
  have t: "tidy cfg s ?f" using assms by (rule tidy_run)
  have r: "run cfg full_text s =
      and_then ?f (\<lambda>s3. Normal (on_finished cfg (schedule_status ''Done!'' s3)))"
    by (simp add: run_def Let_def and_then_assoc del: and_then_Normal sleep_nonneg)
  show "callbacks (out (flow_state (run cfg full_text s))) =
     callbacks (out s) + (if stop_callback cfg \<and> ending_of (run cfg full_text s) \<noteq> Crashed
                          then 1 else 0)"
    unfolding r using t by (cases ?f) (simp_all add: tidy_def)
  show "ending_of (run cfg full_text s) = Crashed \<Longrightarrow>
       \<not> (special_keys_ok cfg \<and> pauses_ok cfg)"
    unfolding r using t by (cases ?f) (simp_all add: tidy_def)
qed

subsection \<open>Spaces and the pauses between words\<close>

lemma spaces_simps [simp]:
  "spaces [] = 0" "spaces (xs @ ys) = spaces xs + spaces ys"
  "spaces (Press k # as) = (if k = Key_space then 1 else 0) + spaces as"
  "spaces (Sleep st t # as) = spaces as"
  "spaces (Status m # as) = spaces as"
  "spaces (CallbackScheduled # as) = spaces as"
  by (simp_all add: spaces_def)

lemma word_pauses_simps [simp]:
  "word_pauses [] = 0" "word_pauses (xs @ ys) = word_pauses xs + word_pauses ys"
  "word_pauses (Press k # as) = word_pauses as"
  "word_pauses (Sleep st t # as) =
     (if st \<in> {SentencePause, ClausePause, ThoughtfulPause, WordGap} then 1 else 0)
     + word_pauses as"
  "word_pauses (Status m # as) = word_pauses as"
  "word_pauses (CallbackScheduled # as) = word_pauses as"
  by (simp_all add: word_pauses_def)

lemma at_most_bind:
  assumes "at_most a s f" "\<And>s1. f = Normal s1 \<Longrightarrow> at_most b s1 (g s1)"
  shows "at_most (a + b) s (and_then f g)"
proof (cases f)
  case (Normal s1)
  then show ?thesis using assms(1) assms(2) [OF Normal] by (simp add: at_most_def)
next
  case (Returned x)
  then show ?thesis using assms(1) by (simp add: at_most_def)
next
  case (Raised x)
  then show ?thesis using assms(1) by (simp add: at_most_def)
qed

lemma at_most_frame:
  "spaces (out s0) = spaces (out s) \<Longrightarrow> word_pauses (out s0) = word_pauses (out s) \<Longrightarrow>
     at_most n s0 f \<Longrightarrow> at_most n s f"
  by (simp add: at_most_def)

lemma at_most_mono: "at_most a s f \<Longrightarrow> a \<le> b \<Longrightarrow> at_most b s f"
  by (simp add: at_most_def)

lemma at_most_Normal:
  "spaces (out s') = spaces (out s) \<Longrightarrow> word_pauses (out s') = word_pauses (out s) \<Longrightarrow>
     at_most n s (Normal s')"
  by (simp add: at_most_def)

lemma at_most_sleep:
  "at_most (if k \<in> {SentencePause, ClausePause, ThoughtfulPause, WordGap} then 1 else 0) s
     (sleep k t s)"
  by (simp add: at_most_def sleep_def)

lemma at_most_press:
  "at_most (if k = Key_space then 1 else 0) s (press_release cfg k s)"
  by (simp add: at_most_def press_release_def)

lemma at_most_typo_cycle: "at_most 0 s (typo_cycle cfg cd ch s)"
proof -
  have "at_most (0 + (0 + (0 + 0))) s (typo_cycle cfg cd ch s)"
    unfolding typo_cycle_def Let_def split_def
    by (intro at_most_bind at_most_frame [OF _ _ at_most_sleep [THEN at_most_mono]]
          at_most_frame [OF _ _ at_most_press [THEN at_most_mono]]) simp_all
  then show ?thesis by simp
qed

lemma at_most_char_step: "at_most 0 s (char_step cfg cd ch s)"
proof (cases "stop_event s 0")
  case True
  then show ?thesis by (simp add: char_step_def Let_def split_def at_most_def)
next
  case False
  let ?s1 = "snd (random_random (snd (is_set s)))"
  define after where "after = (\<lambda>s2. sleep CharDelay
       (sleep_time cd (fst (random_uniform (- 0.4) 0.6 (type_char cfg ch s2))))
       (snd (random_uniform (- 0.4) 0.6 (type_char cfg ch s2))))"
  have 1: "at_most 0 ?s1 (if rnd s 0 < get_typo_rate cfg \<and> isalpha ch
       then typo_cycle cfg cd ch ?s1 else Normal ?s1)"
    by (simp add: at_most_typo_cycle at_most_Normal)
  have 2: "at_most 0 s2 (after s2)" for s2
    unfolding after_def
    by (rule at_most_frame [OF _ _ at_most_sleep [THEN at_most_mono]]) simp_all
  have e: "char_step cfg cd ch s = and_then (if rnd s 0 < get_typo_rate cfg \<and> isalpha ch
       then typo_cycle cfg cd ch ?s1 else Normal ?s1) after"
    using False unfolding char_step_def after_def
    by (simp add: Let_def split_def del: sleep_nonneg)
  have "at_most (0 + 0) ?s1 (and_then (if rnd s 0 < get_typo_rate cfg \<and> isalpha ch
       then typo_cycle cfg cd ch ?s1 else Normal ?s1) after)"
    by (rule at_most_bind [OF 1]) (rule 2)
  then show ?thesis
    unfolding e by (simp add: at_most_def)
qed

lemma at_most_type_chars: "at_most 0 s (type_chars cfg cd w s)"
proof (induction w arbitrary: s)
  case Nil
  show ?case by (simp add: at_most_def)
next
  case (Cons ch w)
  have "at_most (0 + 0) s (type_chars cfg cd (ch # w) s)"
    unfolding type_chars.simps
    by (rule at_most_bind [OF at_most_char_step]) (rule Cons.IH)
  then show ?case by simp
qed

lemma at_most_inter_word:
  "at_most (if int w_idx < int (length words) - 1 then 1 else 0) s
     (inter_word cfg words w_idx word s)"
  by (simp add: inter_word_def Let_def split_def press_release_def sleep_def at_most_def)

lemma at_most_word_step:
  "at_most (if word \<noteq> [] \<and> int w_idx < int (length words) - 1 then 1 else 0) s
     (word_step cfg words w_idx word s)"
proof (cases "stop_event s 0 \<or> word = []")
  case True
  then show ?thesis by (auto simp add: word_step_def Let_def split_def at_most_def)
next
  case False
  let ?r = "random_uniform (1.0 - get_speed_variation cfg) (1.0 + get_speed_variation cfg)
     (snd (is_set s))"
  have e: "word_step cfg words w_idx word s =
     and_then (type_chars cfg (char_delay cfg (fst ?r)) word (snd ?r))
       (\<lambda>s2. inter_word cfg words w_idx word s2)"
    using False by (simp add: word_step_def Let_def split_def)
  have "at_most (0 + (if int w_idx < int (length words) - 1 then 1 else 0)) (snd ?r)
     (word_step cfg words w_idx word s)"
    unfolding e
    by (rule at_most_bind [OF at_most_type_chars]) (rule at_most_inter_word)
  then show ?thesis using False by (simp add: at_most_def)
qed

lemma at_most_type_words:
  assumes "w_idx + length ws = length words"
  shows "at_most (length [w \<leftarrow> butlast ws. w \<noteq> []]) s (type_words cfg words w_idx ws s)"
  using assms
proof (induction ws arbitrary: s w_idx)
  case Nil
  show ?case by (simp add: at_most_def)
next
  case (Cons word ws)
  have n: "Suc w_idx + length ws = length words" using Cons.prems by simp
  have l: "int w_idx < int (length words) - 1 \<longleftrightarrow> ws \<noteq> []"
    using Cons.prems by (cases ws) auto
  have "at_most ((if word \<noteq> [] \<and> int w_idx < int (length words) - 1 then 1 else 0)
      + length [w \<leftarrow> butlast ws. w \<noteq> []]) s (type_words cfg words w_idx (word # ws) s)"
    unfolding type_words.simps
    by (rule at_most_bind [OF at_most_word_step]) (rule Cons.IH [OF n])
  then show ?case using l by (auto elim: at_most_mono)
qed

lemma split_no_sep: "sep \<notin> set w \<Longrightarrow> split sep w = [w]"
  by (induction w) auto

lemma split_append_sep: "sep \<notin> set w \<Longrightarrow> split sep (w @ sep # rest) = w # split sep rest"
  by (induction w) auto

lemma split_replicate: "sep \<notin> set w \<Longrightarrow> split sep (replicate k sep @ w) = replicate k [] @ [w]"
  by (induction k) (simp_all add: split_no_sep)

lemma split_run:
  assumes "sep \<notin> set w1" "sep \<notin> set w2"
  shows "length [w \<leftarrow> butlast (split sep (w1 @ replicate n sep @ w2)). w \<noteq> []] \<le> 1"
proof (cases n)
  case 0
  then show ?thesis using assms split_no_sep [of sep "w1 @ w2"] by simp
next
  case (Suc k)
  have "split sep (w1 @ replicate n sep @ w2) = w1 # replicate k [] @ [w2]"
    using assms Suc split_append_sep [OF assms(1), of "replicate k sep @ w2"]
    by (simp add: split_replicate)
  then show ?thesis by (simp add: butlast_append)
qed

subsection \<open>The wrong character\<close>

lemma letter_class_all:
  "list_all (\<lambda>c. lower c \<in> set vowels \<or> lower c \<in> set consonants) ascii_letters"
  by code_simp

lemma letter_class:
  "isalpha c \<Longrightarrow> str_in [lower c] vowels \<or> str_in [lower c] consonants"
  using letter_class_all by (simp add: list_all_iff isalpha_def str_in_def)

lemma pools_lowercase:
  "list_all (\<lambda>c. c \<in> set ascii_lowercase) vowels"
  "list_all (\<lambda>c. c \<in> set ascii_lowercase) consonants"
  by code_simp+

lemma pools_fixed:
  "list_all (\<lambda>c. lower c = c \<and> str_in [c] vowels) vowels"
  "list_all (\<lambda>c. lower c = c \<and> \<not> str_in [c] vowels \<and> str_in [c] consonants) consonants"
  by code_simp+

lemma pools_alpha: "c \<in> set vowels \<union> set consonants \<Longrightarrow> isalpha c"
  using vowels_letters consonants_letters by (auto simp add: list_all_iff isalpha_def)

lemma choice_letter: "fst (random_choice ascii_letters t) \<in> set ascii_letters"
  using nth_mem [of "picks t 0 mod length ascii_letters" ascii_letters]
  by (simp add: ascii_letters_def ascii_lowercase_def ascii_uppercase_def)

lemma typo_char_fallback:
  assumes "\<not> rnd s 0 < 0.15" "\<not> str_in [lower c] vowels" "\<not> str_in [lower c] consonants"
  shows "\<not> isalpha c \<and> fst (choose_typo_char c s) \<in> set ascii_letters
     \<and> fst (choose_typo_char c s) \<noteq> c"
proof -
  have n: "\<not> isalpha c" using assms(2,3) letter_class [of c] by blast
  have m: "fst (choose_typo_char c s) \<in> set ascii_letters"
    using assms choice_letter
    by (simp add: choose_typo_char_def Let_def split_def del: random_choice_proj)
  show ?thesis using n m by (auto simp add: isalpha_def)
qed

lemma typo_char_lowercase:
  assumes "isalpha c" "\<not> rnd s 0 < 0.15"
  shows "fst (choose_typo_char c s) \<in> set ascii_lowercase"
proof -
  have v: "fst (random_choice vowels t) \<in> set ascii_lowercase" for t
    by (rule choice_in [OF _ pools_lowercase(1)]) (simp add: vowels_def)
  have k: "fst (random_choice consonants t) \<in> set ascii_lowercase" for t
    by (rule choice_in [OF _ pools_lowercase(2)]) (simp add: consonants_def)
  show ?thesis
    using letter_class [OF assms(1)] assms(2) v k
    by (auto simp add: choose_typo_char_def Let_def split_def simp del: random_choice_proj)
qed

lemma typo_char_pool:
  assumes "c \<in> set vowels \<union> set consonants" "\<not> rnd s 0 < 0.15"
    "picks s 0 < length pool \<and> pool ! picks s 0 = c"
    "pool = (if c \<in> set vowels then vowels else consonants)"
  shows "fst (choose_typo_char c s) = c"
  using assms pools_fixed
  by (auto simp add: choose_typo_char_def Let_def split_def list_all_iff)

lemma pool_index:
  assumes "c \<in> set vowels \<union> set consonants"
  shows "\<exists>i. i < length (if c \<in> set vowels then vowels else consonants)
     \<and> (if c \<in> set vowels then vowels else consonants) ! i = c"
  using assms by (auto simp add: in_set_conv_nth)

lemma char_step_typo_pressed:
  assumes "never_stopped s" "unit_draws s" "rnd s 0 < get_typo_rate cfg" "isalpha ch"
    "\<not> keyboard_raises cfg Key_backspace" "0 \<le> cd" "0 \<le> get_mistake_correction_delay cfg"
  shows "pressed (out (flow_state (char_step cfg cd ch s))) = pressed (out s) @
     [KeyChar (fst (choose_typo_char ch (snd (random_random (snd (is_set s)))))),
      Key_backspace, KeyChar ch]"
proof -
  from char_step_typo [OF assms] obtain s' where
    1: "char_step cfg cd ch s = Normal s'" and
    2: "undated (out s') = undated (out s) @
          [Press (KeyChar (fst (choose_typo_char ch (snd (random_random (snd (is_set s))))))),
           Sleep TypoDelay 0, Sleep CorrectionDelay 0,
           Press Key_backspace, Sleep BackspaceDelay 0,
           Press (KeyChar ch), Sleep CharDelay 0]"
    by blast
  show ?thesis
    using arg_cong [OF 2, of pressed] 1 by simp
qed

subsection \<open>The sleep after a character\<close>

lemma keeps_bind:
  assumes "keeps s f" "\<And>s1. f = Normal s1 \<Longrightarrow> keeps s1 (g s1)"
  shows "keeps s (and_then f g)"
proof (cases f)
  case (Normal s1)
  then show ?thesis using assms(1) assms(2) [OF Normal] by (simp add: keeps_def)
next
  case (Returned x)
  then show ?thesis using assms(1) by (simp add: keeps_def)
next
  case (Raised x)
  then show ?thesis using assms(1) by (simp add: keeps_def)
qed

lemma keeps_frame: "out s0 = out s \<Longrightarrow> keeps s0 f \<Longrightarrow> keeps s f"
  by (simp add: keeps_def)

lemma keeps_more:
  "out s0 = out s @ as \<Longrightarrow> list_all char_sleep_ok as \<Longrightarrow> keeps s0 f \<Longrightarrow> keeps s f"
  by (simp add: keeps_def)

lemma keeps_Normal:
  "out s' = out s @ as \<Longrightarrow> list_all char_sleep_ok as \<Longrightarrow> keeps s (Normal s')"
  by (simp add: keeps_def)

lemma keeps_Returned: "out s0 = out s \<Longrightarrow> keeps s (Returned (on_finished cfg s0))"
  by (simp add: keeps_def)

lemma keeps_sleep: "k = CharDelay \<longrightarrow> 0.01 \<le> t \<Longrightarrow> keeps s (sleep k t s)"
  by (simp add: keeps_def sleep_def)

lemma keeps_press: "keeps s (press_release cfg k s)"
  by (simp add: keeps_def press_release_def)

lemma sleep_time_least: "0.01 \<le> sleep_time cd u"
  by (simp add: sleep_time_def Let_def)

lemma keeps_after:
  "out s1 = out s @ as \<Longrightarrow> list_all char_sleep_ok as \<Longrightarrow> k \<noteq> CharDelay \<Longrightarrow>
   keeps s (sleep k t s1)"
  by (simp add: keeps_def sleep_def)

lemma keeps_typo_cycle: "keeps s (typo_cycle cfg cd ch s)"
  unfolding typo_cycle_def Let_def split_def
  by (intro keeps_bind keeps_press
      keeps_after [where as = "[Press (KeyChar (fst (choose_typo_char ch s)))]"]
      keeps_after [where as = "[]"]) simp_all

lemma keeps_char_step: "keeps s (char_step cfg cd ch s)"
proof (cases "stop_event s 0")
  case True
  then show ?thesis by (simp add: char_step_def Let_def split_def keeps_Returned)
next
  case False
  let ?s1 = "snd (random_random (snd (is_set s)))"
  define after where "after = (\<lambda>s2. sleep CharDelay
       (sleep_time cd (fst (random_uniform (- 0.4) 0.6 (type_char cfg ch s2))))
       (snd (random_uniform (- 0.4) 0.6 (type_char cfg ch s2))))"
  have 1: "keeps ?s1 (if rnd s 0 < get_typo_rate cfg \<and> isalpha ch
       then typo_cycle cfg cd ch ?s1 else Normal ?s1)"
    using keeps_typo_cycle [of ?s1 cfg cd ch] by (simp add: keeps_def)
  have 2: "keeps s2 (after s2)" for s2
    unfolding after_def
    by (rule keeps_more [where as = "[Press (KeyChar ch)]", OF _ _ keeps_sleep])
      (simp, simp, rule impI, rule sleep_time_least)
  have e: "char_step cfg cd ch s = and_then (if rnd s 0 < get_typo_rate cfg \<and> isalpha ch
       then typo_cycle cfg cd ch ?s1 else Normal ?s1) after"
    using False unfolding char_step_def after_def
    by (simp add: Let_def split_def del: sleep_nonneg)
  show ?thesis
    unfolding e by (rule keeps_frame [OF _ keeps_bind [OF 1]]) (simp, rule 2)
qed

lemma keeps_type_chars: "keeps s (type_chars cfg cd w s)"
proof (induction w arbitrary: s)
  case Nil
  show ?case by (simp add: keeps_def)
next
  case (Cons ch w)
  show ?case
    unfolding type_chars.simps
    by (rule keeps_bind [OF keeps_char_step]) (rule Cons.IH)
qed

lemma keeps_inter_word: "keeps s (inter_word cfg words w_idx word s)"
  by (simp add: inter_word_def Let_def split_def press_release_def sleep_def keeps_def)

lemma keeps_word_step: "keeps s (word_step cfg words w_idx word s)"
proof (cases "stop_event s 0 \<or> word = []")
  case True
  then show ?thesis by (auto simp add: word_step_def Let_def split_def keeps_def)
next
  case False
  let ?r = "random_uniform (1.0 - get_speed_variation cfg) (1.0 + get_speed_variation cfg)
     (snd (is_set s))"
  have e: "word_step cfg words w_idx word s =
     and_then (type_chars cfg (char_delay cfg (fst ?r)) word (snd ?r))
       (\<lambda>s2. inter_word cfg words w_idx word s2)"
    using False by (simp add: word_step_def Let_def split_def)
  show ?thesis
    unfolding e
    by (rule keeps_frame [OF _ keeps_bind [OF keeps_type_chars]])
      (simp, rule keeps_inter_word)
qed

lemma keeps_type_words: "keeps s (type_words cfg words w_idx ws s)"
proof (induction ws arbitrary: s w_idx)
  case Nil
  show ?case by (simp add: keeps_def)
next
  case (Cons word ws)
  show ?case
    unfolding type_words.simps
    by (rule keeps_bind [OF keeps_word_step]) (rule Cons.IH)
qed

lemma keeps_end_of_line: "keeps s (end_of_line cfg lines line_idx s)"
  by (simp add: end_of_line_def Let_def split_def press_release_def sleep_def keeps_def)

lemma keeps_line_step: "keeps s (line_step cfg lines line_idx line s)"
proof (cases "stop_event s 0")
  case True
  then show ?thesis by (simp add: line_step_def Let_def split_def keeps_Returned)
next
  case False
  let ?s0 = "snd (is_set s)"
  define before where "before =
    (if line_idx > 0 \<and> strip (lines ! (line_idx - 1)) = [] \<and> strip line \<noteq> [] then
       (let paragraph_pause = get_paragraph_pause cfg;
            (t, s') = random_uniform (paragraph_pause * 0.8) (paragraph_pause * 1.3) ?s0
        in sleep ParagraphPause t s')
     else Normal ?s0)"
  have b: "keeps ?s0 before"
    by (simp add: before_def Let_def split_def sleep_def keeps_def)
  have e: "line_step cfg lines line_idx line s =
     and_then before (\<lambda>s1. and_then (type_words cfg (words_of line) 0 (words_of line) s1)
        (\<lambda>s2. end_of_line cfg lines line_idx s2))"
    using False unfolding line_step_def before_def by (simp add: split_def Let_def)
  have "keeps ?s0 (and_then before (\<lambda>s1.
       and_then (type_words cfg (words_of line) 0 (words_of line) s1)
        (\<lambda>s2. end_of_line cfg lines line_idx s2)))"
    by (intro keeps_bind b keeps_type_words keeps_end_of_line)
  then show ?thesis
    unfolding e by (rule keeps_frame [rotated]) simp
qed

lemma keeps_type_lines: "keeps s (type_lines cfg lines line_idx ls s)"
proof (induction ls arbitrary: s line_idx)
  case Nil
  show ?case by (simp add: keeps_def)
next
  case (Cons line ls)
  show ?case
    unfolding type_lines.simps
    by (rule keeps_bind [OF keeps_line_step]) (rule Cons.IH)
qed

lemma keeps_countdown: "keeps s (countdown_loop cfg ticks s)"
proof (induction ticks arbitrary: s)
  case Nil
  show ?case by (simp add: keeps_def)
next
  case (Cons i ticks)
  let ?s1 = "emit (Sleep Countdown 1) (schedule_status
     (''Switch to target window! Starting in '' @ str_of_nat i @ ''s...'') (snd (is_set s)))"
  have "keeps s (countdown_loop cfg ticks ?s1)"
    using Cons.IH [of ?s1] by (simp add: keeps_def)
  then show ?case
    by (simp add: Let_def split_def keeps_Returned)
qed

lemma keeps_run: "keeps s (run cfg full_text s)"
proof -
  have 1: "keeps s1 (sleep Buffer 0.2 (schedule_status ''Typing...'' s1))" for s1
    by (simp add: keeps_def)
  have 2: "keeps s3 (Normal (on_finished cfg (schedule_status ''Done!'' s3)))" for s3
    by (simp add: keeps_def)
  show ?thesis
    unfolding run_def Let_def
    by (intro keeps_bind keeps_countdown 1 2 keeps_type_lines)
qed

subsection \<open>Blank text\<close>

lemma all_dropWhile: "(\<forall>x\<in>set (dropWhile P s). P x) \<longleftrightarrow> (\<forall>x\<in>set s. P x)"
  by (induction s) auto

lemma strip_Nil_iff: "strip s = [] \<longleftrightarrow> list_all isspace s"
  by (simp add: strip_def dropWhile_eq_Nil_conv all_dropWhile list_all_iff)

lemma rstrip_newline_subset: "set (rstrip_newline s) \<subseteq> set s"
  by (auto simp add: rstrip_newline_def dest: set_dropWhileD)

section \<open>The claims\<close>

text \<open>
  C5. For every configuration and every speed multiplier drawn for a word, the rate
  \<open>base_cps\<close> is positive (the words per minute are clamped to at least 1), the delay
  \<open>char_delay\<close> of the word is positive, it is 0.12 when the effective rate is not
  positive and the inverse of the effective rate otherwise (so nothing is divided by
  zero), and the sleep after each intended character (line 148) is at least 0.01, so
  that \<^verbatim>\<open>time.sleep\<close> does not raise there. In every run, whatever the text, the
  draws and the stop event, each of these sleeps that the run adds to the actions is at
  least 0.01. Floats are read as reals.
\<close>

theorem char_delay_positive:
  "0 < base_cps cfg \<and> 0 < char_delay cfg m
   \<and> (effective_cps cfg m \<le> 0 \<longrightarrow> char_delay cfg m = 0.12)
   \<and> (0 < effective_cps cfg m \<longrightarrow> char_delay cfg m * effective_cps cfg m = 1)
   \<and> 0.01 \<le> sleep_time (char_delay cfg m) u
   \<and> sleep CharDelay (sleep_time (char_delay cfg m) u) s =
       Normal (emit (Sleep CharDelay (sleep_time (char_delay cfg m) u)) s)
   \<and> (list_all char_sleep_ok (out s) \<longrightarrow>
        list_all char_sleep_ok (out (flow_state (run cfg full_text s))))"
  using keeps_run [of s cfg full_text]
  by (simp add: base_cps_def char_delay_def sleep_time_def Let_def keeps_def)

theorem char_delay_positive_witness:
  "effective_cps (settings 0.03 0.08 (\<lambda>k. False) True) 0 \<le> 0
   \<and> char_delay (settings 0.03 0.08 (\<lambda>k. False) True) 0 = 0.12
   \<and> 0 < effective_cps (settings 0.03 0.08 (\<lambda>k. False) True) 1
   \<and> char_delay (settings 0.03 0.08 (\<lambda>k. False) True) 1
       * effective_cps (settings 0.03 0.08 (\<lambda>k. False) True) 1 = 1
   \<and> list_all char_sleep_ok (out (fresh (\<lambda>n. 1/2) (\<lambda>n. 0)))
   \<and> list_all char_sleep_ok (out (flow_state
         (run (settings 0.03 0.08 (\<lambda>k. False) True) ''cat'' (fresh (\<lambda>n. 1/2) (\<lambda>n. 0)))))"
  using char_delay_positive [where cfg = "settings 0.03 0.08 (\<lambda>k. False) True" and m = 0
      and s = "fresh (\<lambda>n. 1/2) (\<lambda>n. 0)" and full_text = "''cat''"]
    char_delay_positive [where cfg = "settings 0.03 0.08 (\<lambda>k. False) True" and m = 1]
  by (simp add: effective_cps_def base_cps_def settings_def fresh_calm)

text \<open>
  C6. \<^verbatim>\<open>start\<close> on a simulator whose thread is alive changes nothing. After a
  \<^verbatim>\<open>start\<close> the thread is alive, so a second \<^verbatim>\<open>start\<close> right after it changes nothing
  either: starting twice from a simulator with no live thread starts one thread, for the
  first text, and so one run of \<^verbatim>\<open>_run\<close>.
\<close>

theorem start_while_active:
  "(active sm \<longrightarrow> start b sm = sm)
   \<and> active (start a sm)
   \<and> start b (start a sm) = start a sm
   \<and> (\<not> active sm \<longrightarrow> threads_started (start b (start a sm)) = threads_started sm @ [a])"
  by (simp add: start_def active_def)

theorem start_while_active_witness:
  "\<not> active idle
   \<and> threads_started (start ''second'' (start ''first'' idle)) = [''first'']
   \<and> active (start ''first'' idle)
   \<and> start ''second'' (start ''first'' idle) = start ''first'' idle"
  using start_while_active [of idle "''second''" "''first''"]
  by (simp add: idle_def active_def start_def)

text \<open>
  C7. When the text of the widget is blank (empty, or white space only), the handler
  \<^verbatim>\<open>start_typing\<close> shows the message box "No text" and returns: the simulator is
  untouched, so no thread is started and no \<^verbatim>\<open>_run\<close> presses a key, and the status
  label, the controls and the panic window stay as they were.
\<close>

theorem blank_text_rejected:
  assumes "list_all isspace source_text"
  shows "sim (start_typing source_text g) = sim g
    \<and> threads_started (sim (start_typing source_text g)) = threads_started (sim g)
    \<and> dialogs (start_typing source_text g) =
        dialogs g @ [(''No text'', ''Please provide some text to type.'')]
    \<and> status_label (start_typing source_text g) = status_label g
    \<and> controls_disabled (start_typing source_text g) = controls_disabled g
    \<and> panic_window (start_typing source_text g) = panic_window g"
proof -
  have "list_all isspace (rstrip_newline source_text)"
    using assms rstrip_newline_subset [of source_text] by (auto simp add: list_all_iff)
  then have "strip (rstrip_newline source_text) = []"
    by (simp add: strip_Nil_iff)
  then show ?thesis
    by (simp add: start_typing_def)
qed

theorem blank_text_rejected_witness:
  "list_all isspace [CHR '' '', CHR 0x09, CHR 0x0A]
   \<and> sim (start_typing [CHR '' '', CHR 0x09, CHR 0x0A] window) = idle
   \<and> dialogs (start_typing [CHR '' '', CHR 0x09, CHR 0x0A] window) =
       [(''No text'', ''Please provide some text to type.'')]
   \<and> status_label (start_typing [CHR '' '', CHR 0x09, CHR 0x0A] window) =
       ''Ready - Click 'Type' then switch to target window''"
proof -
  have b: "list_all isspace [CHR '' '', CHR 0x09, CHR 0x0A]"
    by (simp add: isspace_def whitespace_def)
  show ?thesis
    using b blank_text_rejected [OF b, of window] by (simp add: window_def)
qed

text \<open>
  C4, as the code has it. For the text "Hi.", line break, "Bye" with typo rate 0 (and
  any pause frequency, 0 among them), in a run that is never stopped, with the enter key
  not raising and a \<^verbatim>\<open>stop_callback\<close> given, the actions are exactly: the five countdown
  messages, "Typing...", then H, i and the full stop, each followed by its sleep, ENTER,
  the line-gap pause, B, y, e, each followed by its sleep, the message "Done!" and the
  hand-off of \<^verbatim>\<open>stop_callback\<close>, once. There is no space, no backspace, and no sentence
  pause: the pause after a sentence belongs to the space between two words of a line
  (line 151), and "Hi." is the last word of its line. Durations are left out by
  \<open>undated\<close>.
\<close>

theorem hi_bye_sequence:
  assumes "never_stopped s" "unit_draws s" "out s = []" "get_typo_rate cfg = 0"
    "\<not> keyboard_raises cfg Key_enter" "stop_callback cfg"
  shows "\<exists>s'. run cfg ''Hi.\<newline>Bye'' s = Normal s' \<and> undated (out s') =
     [Status ''Switch to target window! Starting in 5s...'', Sleep Countdown 0,
      Status ''Switch to target window! Starting in 4s...'', Sleep Countdown 0,
      Status ''Switch to target window! Starting in 3s...'', Sleep Countdown 0,
      Status ''Switch to target window! Starting in 2s...'', Sleep Countdown 0,
      Status ''Switch to target window! Starting in 1s...'', Sleep Countdown 0,
      Status ''Typing...'', Sleep Buffer 0,
      Press (KeyChar CHR ''H''), Sleep CharDelay 0,
      Press (KeyChar CHR ''i''), Sleep CharDelay 0,
      Press (KeyChar CHR ''.''), Sleep CharDelay 0,
      Press Key_enter, Sleep LineGap 0,
      Press (KeyChar CHR ''B''), Sleep CharDelay 0,
      Press (KeyChar CHR ''y''), Sleep CharDelay 0,
      Press (KeyChar CHR ''e''), Sleep CharDelay 0,
      Status ''Done!'', CallbackScheduled]"
proof -
  let ?lines = "[''Hi.'', ''Bye'']"
  have t: "get_typo_rate cfg \<le> 0" using assms(4) by simp
  obtain s1 where 1: "countdown_loop cfg [5, 4, 3, 2, 1] s = Normal s1" "never_stopped s1"
    "unit_draws s1"
    "undated (out s1) =
     [Status ''Switch to target window! Starting in 5s...'', Sleep Countdown 0,
      Status ''Switch to target window! Starting in 4s...'', Sleep Countdown 0,
      Status ''Switch to target window! Starting in 3s...'', Sleep Countdown 0,
      Status ''Switch to target window! Starting in 2s...'', Sleep Countdown 0,
      Status ''Switch to target window! Starting in 1s...'', Sleep Countdown 0]"
    using countdown_calm [OF assms(1), of cfg "[5, 4, 3, 2, 1]"] assms(2,3) by auto
  define s2 where "s2 = emit (Sleep Buffer 0.2) (schedule_status ''Typing...'' s1)"
  have 2: "never_stopped s2" "unit_draws s2"
    "undated (out s2) = undated (out s1) @ [Status ''Typing...'', Sleep Buffer 0]"
    using 1 by (simp_all add: s2_def)
  \<comment> \<open>the first line\<close>
  define r1 where "r1 = random_uniform (1.0 - get_speed_variation cfg)
     (1.0 + get_speed_variation cfg) (snd (is_set (snd (is_set s2))))"
  have r1: "never_stopped (snd r1)" "unit_draws (snd r1)" "out (snd r1) = out s2"
    using 2 by (simp_all add: r1_def)
  obtain s3 where 3: "type_chars cfg (char_delay cfg (fst r1)) ''Hi.'' (snd r1) = Normal s3"
    "never_stopped s3" "unit_draws s3"
    "undated (out s3) = undated (out s2) @
       [Press (KeyChar CHR ''H''), Sleep CharDelay 0, Press (KeyChar CHR ''i''),
        Sleep CharDelay 0, Press (KeyChar CHR ''.''), Sleep CharDelay 0]"
    using type_chars_plain [OF r1(1,2) t, of "char_delay cfg (fst r1)" "''Hi.''"] r1(3)
    by auto
  obtain s4 where 4: "end_of_line cfg ?lines 0 s3 = Normal s4" "never_stopped s4"
    "unit_draws s4"
    "undated (out s4) = undated (out s3) @ [Press Key_enter, Sleep LineGap 0]"
    using end_of_line_enter [OF _ 3(2,3) assms(5), of 0 ?lines] strip_hi by auto
  have l1: "line_step cfg ?lines 0 ''Hi.'' s2 = Normal s4"
    using line_step_one_word [OF 2(1) words_hi(1), of 0 ?lines cfg] 3(1) 4(1)
    by (simp add: r1_def Let_def)
  \<comment> \<open>the second line\<close>
  define r2 where "r2 = random_uniform (1.0 - get_speed_variation cfg)
     (1.0 + get_speed_variation cfg) (snd (is_set (snd (is_set s4))))"
  have r2: "never_stopped (snd r2)" "unit_draws (snd r2)" "out (snd r2) = out s4"
    using 4 by (simp_all add: r2_def)
  obtain s5 where 5: "type_chars cfg (char_delay cfg (fst r2)) ''Bye'' (snd r2) = Normal s5"
    "undated (out s5) = undated (out s4) @
       [Press (KeyChar CHR ''B''), Sleep CharDelay 0, Press (KeyChar CHR ''y''),
        Sleep CharDelay 0, Press (KeyChar CHR ''e''), Sleep CharDelay 0]"
    using type_chars_plain [OF r2(1,2) t, of "char_delay cfg (fst r2)" "''Bye''"] r2(3)
    by auto
  have l2: "line_step cfg ?lines 1 ''Bye'' s4 = Normal s5"
    using line_step_one_word [OF 4(2) words_hi(2), of 1 ?lines cfg] 5(1) strip_hi
    by (simp add: r2_def Let_def end_of_line_last)
  have "run cfg ''Hi.\<newline>Bye'' s = Normal (on_finished cfg (schedule_status ''Done!'' s5))"
    unfolding run_def split_hi_bye using 1(1) l1 l2 by (simp add: s2_def Let_def)
  moreover have "undated (out (on_finished cfg (schedule_status ''Done!'' s5))) =
      undated (out s5) @ [Status ''Done!'', CallbackScheduled]"
    using assms(6) by simp
  ultimately show ?thesis using 1(4) 2(3) 3(4) 4(4) 5(2) by simp
qed

theorem hi_bye_sequence_witness:
  "never_stopped (fresh (\<lambda>n. 1/2) (\<lambda>n. 0)) \<and> unit_draws (fresh (\<lambda>n. 1/2) (\<lambda>n. 0))
   \<and> out (fresh (\<lambda>n. 1/2) (\<lambda>n. 0)) = []
   \<and> get_typo_rate (settings 0 0 (\<lambda>k. False) True) = 0
   \<and> \<not> keyboard_raises (settings 0 0 (\<lambda>k. False) True) Key_enter
   \<and> stop_callback (settings 0 0 (\<lambda>k. False) True)
   \<and> pressed (out (flow_state (run (settings 0 0 (\<lambda>k. False) True) ''Hi.\<newline>Bye''
        (fresh (\<lambda>n. 1/2) (\<lambda>n. 0))))) =
      [KeyChar CHR ''H'', KeyChar CHR ''i'', KeyChar CHR ''.'', Key_enter,
       KeyChar CHR ''B'', KeyChar CHR ''y'', KeyChar CHR ''e'']
   \<and> callbacks (out (flow_state (run (settings 0 0 (\<lambda>k. False) True) ''Hi.\<newline>Bye''
        (fresh (\<lambda>n. 1/2) (\<lambda>n. 0))))) = 1"
proof -
  let ?s = "fresh (\<lambda>n. 1/2) (\<lambda>n. 0)"
  let ?c = "settings 0 0 (\<lambda>k. False) True"
  have h: "never_stopped ?s" "unit_draws ?s" "out ?s = []" "get_typo_rate ?c = 0"
    "\<not> keyboard_raises ?c Key_enter" "stop_callback ?c"
    by (simp_all add: fresh_calm settings_def)
  from hi_bye_sequence [OF h] obtain s' where
    r: "run ?c ''Hi.\<newline>Bye'' ?s = Normal s'" and
    u: "undated (out s') =
     [Status ''Switch to target window! Starting in 5s...'', Sleep Countdown 0,
      Status ''Switch to target window! Starting in 4s...'', Sleep Countdown 0,
      Status ''Switch to target window! Starting in 3s...'', Sleep Countdown 0,
      Status ''Switch to target window! Starting in 2s...'', Sleep Countdown 0,
      Status ''Switch to target window! Starting in 1s...'', Sleep Countdown 0,
      Status ''Typing...'', Sleep Buffer 0,
      Press (KeyChar CHR ''H''), Sleep CharDelay 0,
      Press (KeyChar CHR ''i''), Sleep CharDelay 0,
      Press (KeyChar CHR ''.''), Sleep CharDelay 0,
      Press Key_enter, Sleep LineGap 0,
      Press (KeyChar CHR ''B''), Sleep CharDelay 0,
      Press (KeyChar CHR ''y''), Sleep CharDelay 0,
      Press (KeyChar CHR ''e''), Sleep CharDelay 0,
      Status ''Done!'', CallbackScheduled]"
    by blast
  have "pressed (out s') =
      [KeyChar CHR ''H'', KeyChar CHR ''i'', KeyChar CHR ''.'', Key_enter,
       KeyChar CHR ''B'', KeyChar CHR ''y'', KeyChar CHR ''e'']"
    using arg_cong [OF u, of pressed] by simp
  moreover have "callbacks (out s') = 1"
    using arg_cong [OF u, of callbacks] by simp
  ultimately show ?thesis using h r by simp
qed

text \<open>
  C4 as the claim states it fails: in the run of "Hi.", line break, "Bye" with all draws
  1/2, typo rate 0 and pause frequency 0, no sentence pause is slept; the only pause
  between the full stop's own sleep and B is the line gap of 0.1 s after ENTER.
\<close>

theorem hi_bye_sentence_pause_counterexample:
  "pressed (out (flow_state (run (settings 0 0 (\<lambda>k. False) True) ''Hi.\<newline>Bye''
      (fresh (\<lambda>n. 1/2) (\<lambda>n. 0))))) =
   [KeyChar CHR ''H'', KeyChar CHR ''i'', KeyChar CHR ''.'', Key_enter,
    KeyChar CHR ''B'', KeyChar CHR ''y'', KeyChar CHR ''e'']
  \<and> sleeps_at SentencePause (out (flow_state (run (settings 0 0 (\<lambda>k. False) True)
      ''Hi.\<newline>Bye'' (fresh (\<lambda>n. 1/2) (\<lambda>n. 0))))) = []
  \<and> sleeps_at LineGap (out (flow_state (run (settings 0 0 (\<lambda>k. False) True)
      ''Hi.\<newline>Bye'' (fresh (\<lambda>n. 1/2) (\<lambda>n. 0))))) = [0.1]"
  by (simp add: run_defs time_defs str_defs)

text \<open>
  C3, as the code has it. For the text "cat" with typo rate 1, in a run that is never
  stopped, with draws in [0, 1), the backspace key not raising and a correction delay
  that is not negative, the keys pressed are,
  for each of the three letters, a character chosen by \<^verbatim>\<open>_choose_typo_char\<close> (an ASCII
  letter), the backspace and the intended letter: nine keystrokes, six of them characters
  and three of them backspaces.
\<close>

theorem cat_typo_sequence:
  assumes "never_stopped s" "unit_draws s" "out s = []" "get_typo_rate cfg = 1"
    "\<not> keyboard_raises cfg Key_backspace" "0 \<le> get_mistake_correction_delay cfg"
  shows "\<exists>s' w1 w2 w3. run cfg ''cat'' s = Normal s'
    \<and> set [w1, w2, w3] \<subseteq> set ascii_letters
    \<and> pressed (out s') =
        [KeyChar w1, Key_backspace, KeyChar CHR ''c'',
         KeyChar w2, Key_backspace, KeyChar CHR ''a'',
         KeyChar w3, Key_backspace, KeyChar CHR ''t'']
    \<and> length [k \<leftarrow> pressed (out s'). k \<noteq> Key_backspace] = 6
    \<and> length [k \<leftarrow> pressed (out s'). k = Key_backspace] = 3"
proof -
  have t: "1 \<le> get_typo_rate cfg" using assms(4) by simp
  obtain s1 where 1: "countdown_loop cfg [5, 4, 3, 2, 1] s = Normal s1" "never_stopped s1"
    "unit_draws s1"
    "undated (out s1) = concat (map (\<lambda>i.
          [Status (''Switch to target window! Starting in '' @ str_of_nat i @ ''s...''),
           Sleep Countdown 0]) [5, 4, 3, 2, 1])"
    using countdown_calm [OF assms(1), of cfg "[5, 4, 3, 2, 1]"] assms(2,3) by auto
  have p1: "pressed (out s1) = []"
    using arg_cong [OF 1(4), of pressed] by simp
  define s2 where "s2 = emit (Sleep Buffer 0.2) (schedule_status ''Typing...'' s1)"
  have 2: "never_stopped s2" "unit_draws s2" "pressed (out s2) = []"
    using 1 p1 by (simp_all add: s2_def)
  define r where "r = random_uniform (1.0 - get_speed_variation cfg)
     (1.0 + get_speed_variation cfg) (snd (is_set (snd (is_set s2))))"
  define cd where "cd = char_delay cfg (fst r)"
  have cd: "0 \<le> cd" by (simp add: cd_def)
  have r: "never_stopped (snd r)" "unit_draws (snd r)" "pressed (out (snd r)) = []"
    using 2 by (simp_all add: r_def)
  obtain s3 w1 where 3: "char_step cfg cd CHR ''c'' (snd r) = Normal s3" "never_stopped s3"
    "unit_draws s3" "w1 \<in> set ascii_letters"
    "undated (out s3) = undated (out (snd r)) @
          [Press (KeyChar w1), Sleep TypoDelay 0, Sleep CorrectionDelay 0,
           Press Key_backspace, Sleep BackspaceDelay 0,
           Press (KeyChar CHR ''c''), Sleep CharDelay 0]"
    using char_step_typo_letter [OF r(1,2) t alpha_cat(1) assms(5) cd assms(6)] by blast
  have p3: "pressed (out s3) = [KeyChar w1, Key_backspace, KeyChar CHR ''c'']"
    using arg_cong [OF 3(5), of pressed] r(3) by simp
  obtain s4 w2 where 4: "char_step cfg cd CHR ''a'' s3 = Normal s4" "never_stopped s4"
    "unit_draws s4" "w2 \<in> set ascii_letters"
    "undated (out s4) = undated (out s3) @
          [Press (KeyChar w2), Sleep TypoDelay 0, Sleep CorrectionDelay 0,
           Press Key_backspace, Sleep BackspaceDelay 0,
           Press (KeyChar CHR ''a''), Sleep CharDelay 0]"
    using char_step_typo_letter [OF 3(2,3) t alpha_cat(2) assms(5) cd assms(6)] by blast
  have p4: "pressed (out s4) =
      pressed (out s3) @ [KeyChar w2, Key_backspace, KeyChar CHR ''a'']"
    using arg_cong [OF 4(5), of pressed] by simp
  obtain s5 w3 where 5: "char_step cfg cd CHR ''t'' s4 = Normal s5"
    "w3 \<in> set ascii_letters"
    "undated (out s5) = undated (out s4) @
          [Press (KeyChar w3), Sleep TypoDelay 0, Sleep CorrectionDelay 0,
           Press Key_backspace, Sleep BackspaceDelay 0,
           Press (KeyChar CHR ''t''), Sleep CharDelay 0]"
    using char_step_typo_letter [OF 4(2,3) t alpha_cat(3) assms(5) cd assms(6)] by blast
  have p5: "pressed (out s5) =
      pressed (out s4) @ [KeyChar w3, Key_backspace, KeyChar CHR ''t'']"
    using arg_cong [OF 5(3), of pressed] by simp
  have c: "type_chars cfg cd ''cat'' (snd r) = Normal s5"
    using 3(1) 4(1) 5(1) by simp
  have l: "line_step cfg [''cat''] 0 ''cat'' s2 = Normal s5"
    using line_step_one_word [OF 2(1) words_cat, of 0 "[''cat'']" cfg] c
    by (simp add: r_def cd_def Let_def end_of_line_last)
  have "run cfg ''cat'' s = Normal (on_finished cfg (schedule_status ''Done!'' s5))"
    unfolding run_def using 1(1) l by (simp add: s2_def Let_def)
  moreover have "pressed (out (on_finished cfg (schedule_status ''Done!'' s5))) =
      pressed (out s5)"
    by simp
  ultimately show ?thesis using 3(4) 4(4) 5(2) p3 p4 p5 by simp
qed

theorem cat_typo_sequence_witness:
  "never_stopped (fresh (\<lambda>n. 1/2) (\<lambda>n. 0)) \<and> unit_draws (fresh (\<lambda>n. 1/2) (\<lambda>n. 0))
   \<and> out (fresh (\<lambda>n. 1/2) (\<lambda>n. 0)) = []
   \<and> get_typo_rate (settings 1 0 (\<lambda>k. False) True) = 1
   \<and> \<not> keyboard_raises (settings 1 0 (\<lambda>k. False) True) Key_backspace
   \<and> 0 \<le> get_mistake_correction_delay (settings 1 0 (\<lambda>k. False) True)
   \<and> length [k \<leftarrow> pressed (out (flow_state (run (settings 1 0 (\<lambda>k. False) True) ''cat''
        (fresh (\<lambda>n. 1/2) (\<lambda>n. 0))))). k \<noteq> Key_backspace] = 6
   \<and> length [k \<leftarrow> pressed (out (flow_state (run (settings 1 0 (\<lambda>k. False) True) ''cat''
        (fresh (\<lambda>n. 1/2) (\<lambda>n. 0))))). k = Key_backspace] = 3"
proof -
  let ?s = "fresh (\<lambda>n. 1/2) (\<lambda>n. 0)"
  let ?c = "settings 1 0 (\<lambda>k. False) True"
  have h: "never_stopped ?s" "unit_draws ?s" "out ?s = []" "get_typo_rate ?c = 1"
    "\<not> keyboard_raises ?c Key_backspace" "0 \<le> get_mistake_correction_delay ?c"
    by (simp_all add: fresh_calm settings_def)
  from cat_typo_sequence [OF h] obtain s' where
    "run ?c ''cat'' ?s = Normal s'"
    "length [k \<leftarrow> pressed (out s'). k \<noteq> Key_backspace] = 6"
    "length [k \<leftarrow> pressed (out s'). k = Key_backspace] = 3"
    by blast
  then show ?thesis using h by simp
qed

text \<open>
  C3 as the claim states it fails: in the run of "cat" with all draws 1/2 and typo rate 1
  the keys are b, backspace, c, a, backspace, a, b, backspace, t. The character
  keystrokes are six, not nine; nine is the number of all keystrokes, the three
  backspaces among them.
\<close>

theorem cat_nine_characters_counterexample:
  "pressed (out (flow_state (run (settings 1 0 (\<lambda>k. False) True) ''cat''
      (fresh (\<lambda>n. 1/2) (\<lambda>n. 0))))) =
   [KeyChar CHR ''b'', Key_backspace, KeyChar CHR ''c'',
    KeyChar CHR ''a'', Key_backspace, KeyChar CHR ''a'',
    KeyChar CHR ''b'', Key_backspace, KeyChar CHR ''t'']
   \<and> length [k \<leftarrow> pressed (out (flow_state (run (settings 1 0 (\<lambda>k. False) True) ''cat''
        (fresh (\<lambda>n. 1/2) (\<lambda>n. 0))))). k \<noteq> Key_backspace] \<noteq> 9"
  by (simp add: run_defs time_defs str_defs)

text \<open>
  C2 fails on the code. \<^verbatim>\<open>_type_char\<close> catches what the controller raises on a
  character, but the space, the enter and the backspace are pressed outside any
  \<^verbatim>\<open>try\<close> (lines 140-141, 156-157, 184-185). With a controller that raises on the space
  key, the run of "a b" ends with the exception right after the call for the space: b is
  never typed.
\<close>

theorem space_failure_aborts_run:
  "ending_of (run (settings 0 0 (\<lambda>k. k = Key_space) True) ''a b''
      (fresh (\<lambda>n. 1/2) (\<lambda>n. 0))) = Crashed
   \<and> pressed (out (flow_state (run (settings 0 0 (\<lambda>k. k = Key_space) True) ''a b''
      (fresh (\<lambda>n. 1/2) (\<lambda>n. 0))))) = [KeyChar CHR ''a'', Key_space]"
  by (simp add: run_defs time_defs str_defs)

text \<open>
  C1 fails on the code, by the same unguarded key presses. With a controller that raises
  on the enter key, the run of "a", line break, "b" ends in neither terminal state: the
  exception leaves \<^verbatim>\<open>_run\<close> after the call for the enter, "Done!" is not sent and
  \<^verbatim>\<open>_on_finished\<close> is never called, although a \<^verbatim>\<open>stop_callback\<close> was given.
\<close>

theorem enter_failure_skips_on_finished:
  "ending_of (run (settings 0 0 (\<lambda>k. k = Key_enter) True) ''a\<newline>b''
      (fresh (\<lambda>n. 1/2) (\<lambda>n. 0))) = Crashed
   \<and> callbacks (out (flow_state (run (settings 0 0 (\<lambda>k. k = Key_enter) True) ''a\<newline>b''
      (fresh (\<lambda>n. 1/2) (\<lambda>n. 0))))) = 0
   \<and> pressed (out (flow_state (run (settings 0 0 (\<lambda>k. k = Key_enter) True) ''a\<newline>b''
      (fresh (\<lambda>n. 1/2) (\<lambda>n. 0))))) = [KeyChar CHR ''a'', Key_enter]"
  by (simp add: run_defs time_defs str_defs)



text \<open>
  C9. An empty word is skipped right after the check of the stop event: the turn of the
  loop presses no key, sleeps nowhere and draws nothing. So for every line the space key
  is pressed, and a pause between words is slept, at most once for each word that is not
  empty and is not the last of the line's words; and for a line made of a part without
  spaces, \<open>n\<close> spaces and another part without spaces, that is at most once.
\<close>

theorem consecutive_spaces_skipped:
  assumes "CHR '' '' \<notin> set w1" "CHR '' '' \<notin> set w2"
  shows "word_step cfg words w_idx [] s =
       (if stop_event s 0 then Returned (on_finished cfg (snd (is_set s)))
        else Normal (snd (is_set s)))
    \<and> out (snd (is_set s)) = out s \<and> rnd (snd (is_set s)) = rnd s
    \<and> spaces (out (flow_state (type_words cfg (words_of line) 0 (words_of line) s)))
        \<le> spaces (out s) + length [w \<leftarrow> butlast (words_of line). w \<noteq> []]
    \<and> word_pauses (out (flow_state (type_words cfg (words_of line) 0 (words_of line) s)))
        \<le> word_pauses (out s) + length [w \<leftarrow> butlast (words_of line). w \<noteq> []]
    \<and> length [w \<leftarrow> butlast (words_of (w1 @ replicate n CHR '' '' @ w2)). w \<noteq> []] \<le> 1"
proof -
  have a: "word_step cfg words w_idx [] s =
       (if stop_event s 0 then Returned (on_finished cfg (snd (is_set s)))
        else Normal (snd (is_set s)))"
    by (simp add: word_step_def Let_def split_def)
  have b: "at_most (length [w \<leftarrow> butlast (words_of line). w \<noteq> []]) s
      (type_words cfg (words_of line) 0 (words_of line) s)"
    by (rule at_most_type_words) simp
  have c: "length [w \<leftarrow> butlast (words_of (w1 @ replicate n CHR '' '' @ w2)). w \<noteq> []] \<le> 1"
    using split_run [OF assms, of n] by (simp add: words_of_def)
  show ?thesis using a b c by (simp add: at_most_def)
qed

theorem consecutive_spaces_skipped_witness:
  "CHR '' '' \<notin> set ''a'' \<and> CHR '' '' \<notin> set ''b''
   \<and> ''a'' @ replicate 3 CHR '' '' @ ''b'' = ''a   b''
   \<and> words_of ''a   b'' = [''a'', [], [], ''b'']
   \<and> length [w \<leftarrow> butlast (words_of (''a'' @ replicate 3 CHR '' '' @ ''b'')). w \<noteq> []] \<le> 1
   \<and> spaces (out (flow_state (type_words (settings 0 0 (\<lambda>k. False) True)
        (words_of ''a   b'') 0 (words_of ''a   b'') (fresh (\<lambda>n. 1/2) (\<lambda>n. 0))))) = 1
   \<and> word_pauses (out (flow_state (type_words (settings 0 0 (\<lambda>k. False) True)
        (words_of ''a   b'') 0 (words_of ''a   b'') (fresh (\<lambda>n. 1/2) (\<lambda>n. 0))))) = 1"
proof -
  have h: "CHR '' '' \<notin> set ''a''" "CHR '' '' \<notin> set ''b''"
    by simp_all
  have e: "words_of ''a   b'' = [''a'', [], [], ''b'']"
    "spaces (out (flow_state (type_words (settings 0 0 (\<lambda>k. False) True)
        (words_of ''a   b'') 0 (words_of ''a   b'') (fresh (\<lambda>n. 1/2) (\<lambda>n. 0))))) = 1"
    "word_pauses (out (flow_state (type_words (settings 0 0 (\<lambda>k. False) True)
        (words_of ''a   b'') 0 (words_of ''a   b'') (fresh (\<lambda>n. 1/2) (\<lambda>n. 0))))) = 1"
    by (simp_all add: run_defs time_defs str_defs)
  have r: "''a'' @ replicate 3 CHR '' '' @ ''b'' = ''a   b''"
    by (simp add: eval_nat_numeral)
  show ?thesis
    using h e r consecutive_spaces_skipped [OF h, where n = 3] by simp
qed

text \<open>
  C10, as the code has it. For every lowercase vowel or consonant there are draws for
  which \<^verbatim>\<open>_choose_typo_char\<close> returns the intended character itself: the pool of vowels
  or of consonants holds it. When the case is not swapped, the character chosen for a
  letter is lowercase, also for an uppercase letter. The choice among all ASCII letters
  is another matter: it is reached only by a character that is not an ASCII letter, so
  what it returns is never the intended character. And when the backspace key does not
  raise and the delays are not negative, there is a run of the typo cycle that presses
  the intended character, the backspace and the intended character again.
\<close>

theorem typo_char_can_equal_intended:
  "(c \<in> set vowels \<union> set consonants \<longrightarrow>
      (\<exists>s. unit_draws s \<and> fst (choose_typo_char c s) = c))
   \<and> (isalpha c \<longrightarrow> \<not> rnd s 0 < 0.15 \<longrightarrow> fst (choose_typo_char c s) \<in> set ascii_lowercase)
   \<and> (\<not> rnd s 0 < 0.15 \<longrightarrow> \<not> str_in [lower c] vowels \<longrightarrow> \<not> str_in [lower c] consonants \<longrightarrow>
        \<not> isalpha c \<and> fst (choose_typo_char c s) \<in> set ascii_letters
        \<and> fst (choose_typo_char c s) \<noteq> c)
   \<and> (c \<in> set vowels \<union> set consonants \<longrightarrow> 0 < get_typo_rate cfg \<longrightarrow>
        \<not> keyboard_raises cfg Key_backspace \<longrightarrow> 0 \<le> cd \<longrightarrow>
        0 \<le> get_mistake_correction_delay cfg \<longrightarrow>
        (\<exists>s. unit_draws s \<and> never_stopped s \<and> out s = [] \<and>
           pressed (out (flow_state (char_step cfg cd c s))) =
             [KeyChar c, Key_backspace, KeyChar c]))"
proof (intro conjI impI)
  assume c: "c \<in> set vowels \<union> set consonants"
  from pool_index [OF c] obtain i where
    i: "i < length (if c \<in> set vowels then vowels else consonants)"
       "(if c \<in> set vowels then vowels else consonants) ! i = c"
    by blast
  let ?s = "fresh (\<lambda>n. 1/2) (\<lambda>n. i)"
  have "fst (choose_typo_char c ?s) = c"
    by (rule typo_char_pool [OF c, where pool = "if c \<in> set vowels then vowels else consonants"])
      (use i in \<open>simp_all add: fresh_def\<close>)
  moreover have "unit_draws ?s" by (simp add: fresh_calm)
  ultimately show "\<exists>s. unit_draws s \<and> fst (choose_typo_char c s) = c" by blast
next
  assume "isalpha c" "\<not> rnd s 0 < 0.15"
  then show "fst (choose_typo_char c s) \<in> set ascii_lowercase" by (rule typo_char_lowercase)
next
  assume a: "\<not> rnd s 0 < 0.15" "\<not> str_in [lower c] vowels" "\<not> str_in [lower c] consonants"
  from typo_char_fallback [OF a]
  show "\<not> isalpha c" "fst (choose_typo_char c s) \<in> set ascii_letters"
    "fst (choose_typo_char c s) \<noteq> c"
    by simp_all
next
  assume c: "c \<in> set vowels \<union> set consonants" and t: "0 < get_typo_rate cfg"
    and b: "\<not> keyboard_raises cfg Key_backspace" and cd: "0 \<le> cd"
    and m: "0 \<le> get_mistake_correction_delay cfg"
  from pool_index [OF c] obtain i where
    i: "i < length (if c \<in> set vowels then vowels else consonants)"
       "(if c \<in> set vowels then vowels else consonants) ! i = c"
    by blast
  let ?s = "fresh (\<lambda>n. if n = 0 then 0 else 1/2) (\<lambda>n. i)"
  have w: "fst (choose_typo_char c (snd (random_random (snd (is_set ?s))))) = c"
    by (rule typo_char_pool [OF c, where pool = "if c \<in> set vowels then vowels else consonants"])
      (use i in \<open>simp_all add: fresh_def\<close>)
  have "pressed (out (flow_state (char_step cfg cd c ?s))) =
      pressed (out ?s) @
      [KeyChar (fst (choose_typo_char c (snd (random_random (snd (is_set ?s)))))),
       Key_backspace, KeyChar c]"
    by (rule char_step_typo_pressed [OF _ _ _ pools_alpha [OF c] b cd m])
      (use t in \<open>simp_all add: fresh_calm\<close>, simp add: fresh_def)
  then have "pressed (out (flow_state (char_step cfg cd c ?s))) =
      [KeyChar c, Key_backspace, KeyChar c]"
    unfolding w by (simp add: fresh_calm)
  moreover have "unit_draws ?s" "never_stopped ?s" "out ?s = []"
    by (simp_all add: fresh_calm)
  ultimately show "\<exists>s. unit_draws s \<and> never_stopped s \<and> out s = [] \<and>
           pressed (out (flow_state (char_step cfg cd c s))) =
             [KeyChar c, Key_backspace, KeyChar c]"
    by blast
qed

theorem typo_char_can_equal_intended_witness:
  "CHR ''a'' \<in> set vowels \<union> set consonants
   \<and> (\<exists>s. unit_draws s \<and> fst (choose_typo_char CHR ''a'' s) = CHR ''a'')
   \<and> isalpha CHR ''A'' \<and> \<not> rnd (fresh (\<lambda>n. 1/2) (\<lambda>n. 0)) 0 < 0.15
   \<and> fst (choose_typo_char CHR ''A'' (fresh (\<lambda>n. 1/2) (\<lambda>n. 0))) \<in> set ascii_lowercase
   \<and> \<not> str_in [lower CHR ''1''] vowels \<and> \<not> str_in [lower CHR ''1''] consonants
   \<and> fst (choose_typo_char CHR ''1'' (fresh (\<lambda>n. 1/2) (\<lambda>n. 0))) \<noteq> CHR ''1''
   \<and> 0 < get_typo_rate (settings 0.03 0.08 (\<lambda>k. False) True)
   \<and> \<not> keyboard_raises (settings 0.03 0.08 (\<lambda>k. False) True) Key_backspace
   \<and> (\<exists>s. unit_draws s \<and> never_stopped s \<and> out s = [] \<and>
         pressed (out (flow_state (char_step (settings 0.03 0.08 (\<lambda>k. False) True) 0.2
            CHR ''a'' s))) = [KeyChar CHR ''a'', Key_backspace, KeyChar CHR ''a''])"
proof -
  let ?s = "fresh (\<lambda>n. 1/2) (\<lambda>n. 0)"
  let ?c = "settings 0.03 0.08 (\<lambda>k. False) True"
  have h: "CHR ''a'' \<in> set vowels \<union> set consonants" "isalpha CHR ''A''"
    "\<not> rnd ?s 0 < 0.15" "\<not> str_in [lower CHR ''1''] vowels"
    "\<not> str_in [lower CHR ''1''] consonants" "0 < get_typo_rate ?c"
    "\<not> keyboard_raises ?c Key_backspace" "(0::real) \<le> 0.2"
    "0 \<le> get_mistake_correction_delay ?c"
    by (simp_all add: str_defs fresh_def settings_def)
  note a = typo_char_can_equal_intended [where c = "CHR ''a''" and s = ?s and cfg = ?c
      and cd = "0.2"]
  note b = typo_char_can_equal_intended [where c = "CHR ''A''" and s = ?s and cfg = ?c
      and cd = "0.2"]
  note d = typo_char_can_equal_intended [where c = "CHR ''1''" and s = ?s and cfg = ?c
      and cd = "0.2"]
  have 1: "\<exists>s. unit_draws s \<and> fst (choose_typo_char CHR ''a'' s) = CHR ''a''"
    using a h(1) by blast
  have 2: "fst (choose_typo_char CHR ''A'' ?s) \<in> set ascii_lowercase"
    using b h(2,3) by blast
  have 3: "fst (choose_typo_char CHR ''1'' ?s) \<noteq> CHR ''1''"
    using d h(3,4,5) by blast
  have 4: "\<exists>s. unit_draws s \<and> never_stopped s \<and> out s = [] \<and>
         pressed (out (flow_state (char_step ?c 0.2 CHR ''a'' s))) =
           [KeyChar CHR ''a'', Key_backspace, KeyChar CHR ''a'']"
    using a h(1,6,7,8,9) by blast
  show ?thesis using h(1-7) 1 2 3 4 by blast
qed

text \<open>
  C10 as the claim states it fails in one point: the choice among the ASCII letters
  never includes the correct character. Whatever the character and the draws, when
  \<^verbatim>\<open>_choose_typo_char\<close> reaches \<^verbatim>\<open>random.choice(string.ascii_letters)\<close>, the character
  it returns is not the intended one.
\<close>

theorem ascii_letter_choice_counterexample:
  "\<not> (\<exists>c s. \<not> rnd s 0 < 0.15 \<and> \<not> str_in [lower c] vowels \<and> \<not> str_in [lower c] consonants
         \<and> fst (choose_typo_char c s) = c)"
  using typo_char_fallback by blast

section \<open>Beyond the claims\<close>

text \<open>
  When the space, enter and backspace keys do not raise, the three pause settings are
  not negative, the draws are in [0, 1) and a \<^verbatim>\<open>stop_callback\<close> was given, every run,
  whatever the text and the moments at which the stop event is seen, ends completed or
  cancelled, and hands \<^verbatim>\<open>stop_callback\<close> to the main loop exactly once.
\<close>

theorem run_notifies_once:
  assumes "special_keys_ok cfg" "pauses_ok cfg" "stop_callback cfg" "unit_draws s"
  shows "ending_of (run cfg full_text s) \<in> {Completed, Cancelled}
    \<and> callbacks (out (flow_state (run cfg full_text s))) = callbacks (out s) + 1"
proof -
  have n: "ending_of (run cfg full_text s) \<noteq> Crashed"
    using run_crash [OF assms(4), of cfg full_text] assms(1,2) by blast
  then have "ending_of (run cfg full_text s) \<in> {Completed, Cancelled}"
    by (cases "ending_of (run cfg full_text s)") simp_all
  then show ?thesis
    using n assms(3) run_callbacks [OF assms(4), of cfg full_text] by simp
qed

theorem run_notifies_once_witness:
  "special_keys_ok (settings 0.03 0.08 (\<lambda>k. False) True)
   \<and> pauses_ok (settings 0.03 0.08 (\<lambda>k. False) True)
   \<and> stop_callback (settings 0.03 0.08 (\<lambda>k. False) True)
   \<and> unit_draws (fresh (\<lambda>n. 1/2) (\<lambda>n. 0))
   \<and> callbacks (out (flow_state (run (settings 0.03 0.08 (\<lambda>k. False) True) ''a b''
        (fresh (\<lambda>n. 1/2) (\<lambda>n. 0))))) = 1"
proof -
  have h: "special_keys_ok (settings 0.03 0.08 (\<lambda>k. False) True)"
    "pauses_ok (settings 0.03 0.08 (\<lambda>k. False) True)"
    "stop_callback (settings 0.03 0.08 (\<lambda>k. False) True)"
    "unit_draws (fresh (\<lambda>n. 1/2) (\<lambda>n. 0))"
    by (simp_all add: special_keys_ok_def pauses_ok_def settings_def fresh_calm)
  show ?thesis
    using h run_notifies_once [OF h, of "''a b''"]
    by (simp add: fresh_calm)
qed

end
